theory Spec2Isabelle
  imports Main
begin

section \<open>Document flattener: \<open>old_web_app/csv_generator.py\<close>\<close>

text \<open>
  The Textract response is a JSON object; every level is read with
  \<open>.get(key, default)\<close>, so every key may be missing. A missing key is \<open>None\<close> here,
  and the default of the source is applied where the source applies it.
  A field is \<open>{'Type': {'Text': ...}, 'ValueDetection': {'Text': ...}}\<close>.
\<close>

type_synonym text_obj = "string option"

record expense_field =
  field_Type :: "text_obj option"
  field_ValueDetection :: "text_obj option"

record line_item =
  LineItemExpenseFields :: "expense_field list option"

record line_group =
  LineItems :: "line_item list option"

record expense_doc =
  SummaryFields :: "expense_field list option"
  LineItemGroups :: "line_group list option"

record response =
  ExpenseDocuments :: "expense_doc list option"

text \<open>\<open>obj.get(key, {}).get('Text', '')\<close>\<close>

definition get_Text :: "text_obj option \<Rightarrow> string" where
  "get_Text obj = (case obj of None \<Rightarrow> '''' | Some None \<Rightarrow> '''' | Some (Some t) \<Rightarrow> t)"

text \<open>\<open>obj.get(key, [])\<close>\<close>

definition get_list :: "'a list option \<Rightarrow> 'a list" where
  "get_list l = (case l of None \<Rightarrow> [] | Some xs \<Rightarrow> xs)"

text \<open>The dictionary \<open>extracted\<close> of the source, updated in place by the loops.\<close>

record extracted =
  filename :: string
  vendor_name :: string
  ex_total :: string
  ex_date :: string
  items :: "(string \<times> string) list"
  ex_processed_at :: string

text \<open>
  The loop over \<open>SummaryFields\<close>: an \<open>if\<close>/\<open>elif\<close> chain on the field type, each branch
  overwriting one key.
\<close>

fun summary_loop :: "expense_field list \<Rightarrow> extracted \<Rightarrow> extracted" where
  "summary_loop [] ex = ex"
| "summary_loop (f # fs) ex =
     (let field_type = get_Text (field_Type f);
          field_value = get_Text (field_ValueDetection f)
      in summary_loop fs
           (if field_type = ''VENDOR_NAME'' then ex\<lparr>vendor_name := field_value\<rparr>
            else if field_type = ''TOTAL'' then ex\<lparr>ex_total := field_value\<rparr>
            else if field_type = ''INVOICE_RECEIPT_DATE'' then ex\<lparr>ex_date := field_value\<rparr>
            else ex))"

text \<open>
  The loop over the \<open>LineItemExpenseFields\<close> of one line item; the state is the pair
  \<open>(item_name, item_price)\<close>, both \<open>''\<close> before the loop.
\<close>

fun item_fields_loop :: "expense_field list \<Rightarrow> string \<times> string \<Rightarrow> string \<times> string" where
  "item_fields_loop [] np = np"
| "item_fields_loop (f # fs) (item_name, item_price) =
     (let field_type = get_Text (field_Type f);
          field_value = get_Text (field_ValueDetection f)
      in item_fields_loop fs
           (if field_type = ''ITEM'' then (field_value, item_price)
            else if field_type = ''PRICE'' then (item_name, field_value)
            else (item_name, item_price)))"

text \<open>A Python string is truthy when it is not empty.\<close>

definition truthy_str :: "string \<Rightarrow> bool" where
  "truthy_str s = (s \<noteq> [])"

fun line_items_loop :: "line_item list \<Rightarrow> extracted \<Rightarrow> extracted" where
  "line_items_loop [] ex = ex"
| "line_items_loop (li # lis) ex =
     (let (item_name, item_price) =
            item_fields_loop (get_list (LineItemExpenseFields li)) ('''', '''')
      in line_items_loop lis
           (if truthy_str item_name \<or> truthy_str item_price
            then ex\<lparr>items := items ex @ [(item_name, item_price)]\<rparr>
            else ex))"

fun line_groups_loop :: "line_group list \<Rightarrow> extracted \<Rightarrow> extracted" where
  "line_groups_loop [] ex = ex"
| "line_groups_loop (g # gs) ex =
     line_groups_loop gs (line_items_loop (get_list (LineItems g)) ex)"

fun expense_docs_loop :: "expense_doc list \<Rightarrow> extracted \<Rightarrow> extracted" where
  "expense_docs_loop [] ex = ex"
| "expense_docs_loop (d # ds) ex =
     expense_docs_loop ds
       (line_groups_loop (get_list (LineItemGroups d))
          (summary_loop (get_list (SummaryFields d)) ex))"

text \<open>
  \<open>extract_data_from_json\<close>, after the file has been read and decoded: \<open>fname\<close> is the
  base name with the suffix removed, \<open>now\<close> is \<open>datetime.now().isoformat()\<close>, \<open>data\<close> the
  decoded JSON.
\<close>

definition extract_data_from_json :: "string \<Rightarrow> string \<Rightarrow> response \<Rightarrow> extracted" where
  "extract_data_from_json fname now data =
     expense_docs_loop (get_list (ExpenseDocuments data))
       \<lparr>filename = fname, vendor_name = '''', ex_total = '''', ex_date = '''',
        items = [], ex_processed_at = now\<rparr>"

text \<open>
  For the statement of the count: all line items of a response in document order, and
  the value a tag ends up with after a scan of a field list (the last field carrying
  the tag decides, \<open>''\<close> when no field carries it).
\<close>

definition all_line_items :: "response \<Rightarrow> line_item list" where
  "all_line_items data =
     concat (map (\<lambda>d. concat (map (\<lambda>g. get_list (LineItems g)) (get_list (LineItemGroups d))))
       (get_list (ExpenseDocuments data)))"

definition last_tagged :: "string \<Rightarrow> expense_field list \<Rightarrow> string" where
  "last_tagged tag fs =
     (case rev (filter (\<lambda>f. get_Text (field_Type f) = tag) fs) of
        [] \<Rightarrow> ''''
      | f # _ \<Rightarrow> get_Text (field_ValueDetection f))"

definition item_name_of :: "line_item \<Rightarrow> string" where
  "item_name_of li = last_tagged ''ITEM'' (get_list (LineItemExpenseFields li))"

definition item_price_of :: "line_item \<Rightarrow> string" where
  "item_price_of li = last_tagged ''PRICE'' (get_list (LineItemExpenseFields li))"

definition yields_item :: "line_item \<Rightarrow> bool" where
  "yields_item li = (item_name_of li \<noteq> [] \<or> item_price_of li \<noteq> [])"

text \<open>
  A response with one document, one group and three line items: a named and priced item,
  an item whose \<open>ITEM\<close> text is empty and whose \<open>PRICE\<close> field has no \<open>ValueDetection\<close>,
  and an item with a price only.
\<close>

definition three_items_doc :: response where
  "three_items_doc =
     \<lparr>ExpenseDocuments = Some [\<lparr>SummaryFields = None, LineItemGroups = Some [\<lparr>LineItems = Some
        [\<lparr>LineItemExpenseFields = Some
            [\<lparr>field_Type = Some (Some ''ITEM''), field_ValueDetection = Some (Some ''Coffee'')\<rparr>,
             \<lparr>field_Type = Some (Some ''PRICE''), field_ValueDetection = Some (Some ''3.50'')\<rparr>]\<rparr>,
         \<lparr>LineItemExpenseFields = Some
            [\<lparr>field_Type = Some (Some ''ITEM''), field_ValueDetection = Some (Some '''')\<rparr>,
             \<lparr>field_Type = Some (Some ''QUANTITY''), field_ValueDetection = Some (Some ''2'')\<rparr>,
             \<lparr>field_Type = Some (Some ''PRICE''), field_ValueDetection = None\<rparr>]\<rparr>,
         \<lparr>LineItemExpenseFields = Some
            [\<lparr>field_Type = Some (Some ''PRICE''), field_ValueDetection = Some (Some ''1.00'')\<rparr>]\<rparr>]\<rparr>]\<rparr>]\<rparr>"

section \<open>Regular expressions, matched the way Python's \<open>re\<close> matches them\<close>

text \<open>
  The text is a \<open>string\<close> whose characters are the code points 0 to 255 of a Python
  \<open>str\<close>. The classes \<open>\d\<close>, \<open>\w\<close> and \<open>\s\<close> are the ones \<open>re\<close> uses for \<open>str\<close> patterns
  (Unicode tables), restricted to these code points.
\<close>

definition code :: "char \<Rightarrow> nat" where
  "code c = of_char c"

definition is_digit :: "char \<Rightarrow> bool" where
  "is_digit c = (48 \<le> code c \<and> code c \<le> 57)"

definition is_word :: "char \<Rightarrow> bool" where
  "is_word c =
     (let n = code c
      in (48 \<le> n \<and> n \<le> 57) \<or> (65 \<le> n \<and> n \<le> 90) \<or> n = 95 \<or> (97 \<le> n \<and> n \<le> 122)
         \<or> n = 170 \<or> n = 178 \<or> n = 179 \<or> n = 181 \<or> n = 185 \<or> n = 186
         \<or> (188 \<le> n \<and> n \<le> 190) \<or> (192 \<le> n \<and> n \<le> 214) \<or> (216 \<le> n \<and> n \<le> 246)
         \<or> 248 \<le> n)"

definition is_space :: "char \<Rightarrow> bool" where
  "is_space c =
     (let n = code c in (9 \<le> n \<and> n \<le> 13) \<or> (28 \<le> n \<and> n \<le> 32) \<or> n = 133 \<or> n = 160)"

text \<open>Lower case, as \<open>re.IGNORECASE\<close> compares characters.\<close>

definition lower :: "char \<Rightarrow> char" where
  "lower c =
     (let n = code c
      in if (65 \<le> n \<and> n \<le> 90) \<or> (192 \<le> n \<and> n \<le> 222 \<and> n \<noteq> 215) then char_of (n + 32) else c)"

text \<open>
  An atom is what one position of a character set can hold: a literal character or one
  of the escapes \<open>\d\<close>, \<open>\w\<close>, \<open>\s\<close>. A set \<open>[...]\<close> is a list of atoms; a literal or an
  escape outside brackets is a set of one atom.
\<close>

datatype atom = Lit char | Digit | Wordc | Space

fun atom_matches :: "bool \<Rightarrow> atom \<Rightarrow> char \<Rightarrow> bool" where
  "atom_matches ic (Lit l) c = (c = l \<or> (ic \<and> lower c = lower l))"
| "atom_matches ic Digit c = is_digit c"
| "atom_matches ic Wordc c = is_word c"
| "atom_matches ic Space c = is_space c"

definition set_matches :: "bool \<Rightarrow> atom list \<Rightarrow> char \<Rightarrow> bool" where
  "set_matches ic as c = list_ex (\<lambda>a. atom_matches ic a c) as"

text \<open>
  The constructs the patterns of the source use: a character out of a set, the word
  boundary \<open>\b\<close>, concatenation, alternation \<open>|\<close>, the greedy repetition \<open>x{m,n}\<close> of a
  character set (\<open>?\<close>, \<open>*\<close>, \<open>+\<close> and \<open>{m}\<close> are instances; \<open>None\<close> is no upper bound), the
  optional group \<open>(?:...)?\<close> and the capturing group number \<open>n\<close>.
\<close>

datatype regex =
    Eps
  | One "atom list"
  | Boundary
  | Cat regex regex
  | Alt regex regex
  | Rep nat "nat option" "atom list"
  | Opt regex
  | Group nat regex

text \<open>
  A state of the matcher: the character before the position (\<open>None\<close> at the start of
  the text), the text from the position on, and the groups captured so far, latest
  first.
\<close>

type_synonym groups = "(nat \<times> string) list"
type_synonym mstate = "char option \<times> string \<times> groups"

definition word_before :: "char option \<Rightarrow> bool" where
  "word_before p = (case p of None \<Rightarrow> False | Some c \<Rightarrow> is_word c)"

definition word_after :: "string \<Rightarrow> bool" where
  "word_after cs = (case cs of [] \<Rightarrow> False | c # _ \<Rightarrow> is_word c)"

text \<open>
  The backtracking matcher returns every way the expression can match at the position,
  in the order in which \<open>re\<close> tries them: the head of the list is the match \<open>re\<close> reports.
  A greedy repetition tries one more character first and fewer afterwards; an
  alternation tries its left branch first; an optional group is tried before it is
  skipped.
\<close>

fun rep_run :: "bool \<Rightarrow> atom list \<Rightarrow> nat \<Rightarrow> nat option \<Rightarrow> mstate \<Rightarrow> mstate list" where
  "rep_run ic as lo hi (p, [], g) = (if lo = 0 then [(p, [], g)] else [])"
| "rep_run ic as lo hi (p, c # cs, g) =
     (if hi \<noteq> Some 0 \<and> set_matches ic as c
      then rep_run ic as (lo - 1) (map_option (\<lambda>h. h - 1) hi) (Some c, cs, g)
      else [])
     @ (if lo = 0 then [(p, c # cs, g)] else [])"

primrec run :: "regex \<Rightarrow> bool \<Rightarrow> mstate \<Rightarrow> mstate list" where
  "run Eps ic st = [st]"
| "run (One as) ic st =
     (case st of
        (p, [], g) \<Rightarrow> []
      | (p, c # cs, g) \<Rightarrow> if set_matches ic as c then [(Some c, cs, g)] else [])"
| "run Boundary ic st =
     (case st of (p, cs, g) \<Rightarrow> if word_before p \<noteq> word_after cs then [st] else [])"
| "run (Cat r1 r2) ic st = concat (map (run r2 ic) (run r1 ic st))"
| "run (Alt r1 r2) ic st = run r1 ic st @ run r2 ic st"
| "run (Rep lo hi as) ic st = rep_run ic as lo hi st"
| "run (Opt r) ic st = run r ic st @ [st]"
| "run (Group n r) ic st =
     (case st of (p, cs, g) \<Rightarrow>
        map (\<lambda>(p', cs', g'). (p', cs', (n, take (length cs - length cs') cs) # g'))
          (run r ic st))"

fun seq :: "regex list \<Rightarrow> regex" where
  "seq [] = Eps"
| "seq [r] = r"
| "seq (r # rs) = Cat r (seq rs)"

definition lit :: "string \<Rightarrow> regex" where
  "lit s = seq (map (\<lambda>c. One [Lit c]) s)"

text \<open>
  A match object: the position where the match starts and its groups; group 0 is the
  whole match. \<open>group m n\<close> is \<open>m.group(n)\<close>: \<open>None\<close> for a group that took no part.
\<close>

type_synonym match = "nat \<times> groups"

definition m_start :: "match \<Rightarrow> nat" where
  "m_start m = fst m"

definition group :: "match \<Rightarrow> nat \<Rightarrow> string option" where
  "group m n = map_of (snd m) n"

text \<open>
  \<open>re.search\<close>: the positions are tried from left to right, the end of the text
  included, and the first position with a match gives the result.
\<close>

fun search_from :: "regex \<Rightarrow> bool \<Rightarrow> nat \<Rightarrow> char option \<Rightarrow> string \<Rightarrow> match option" where
  "search_from r ic i p [] =
     (case run r ic (p, [], []) of
        [] \<Rightarrow> None
      | (p', cs', g) # _ \<Rightarrow> Some (i, (0, []) # g))"
| "search_from r ic i p (c # cs) =
     (case run r ic (p, c # cs, []) of
        [] \<Rightarrow> search_from r ic (Suc i) (Some c) cs
      | (p', cs', g) # _ \<Rightarrow> Some (i, (0, take (length (c # cs) - length cs') (c # cs)) # g))"

definition search :: "regex \<Rightarrow> bool \<Rightarrow> string \<Rightarrow> match option" where
  "search r ic s = search_from r ic 0 None s"

text \<open>
  \<open>re.findall\<close> for a pattern with one group: the non-overlapping matches from left to
  right, each reported by its group 1 (\<open>''\<close> when the group took no part). \<open>skip\<close> counts
  the characters still covered by the previous match. After an empty match the next
  match at the same position must be non-empty (Python 3.7 and later).
\<close>

definition group1 :: "groups \<Rightarrow> string" where
  "group1 g = (case map_of g 1 of None \<Rightarrow> '''' | Some s \<Rightarrow> s)"

fun findall_from :: "regex \<Rightarrow> bool \<Rightarrow> nat \<Rightarrow> char option \<Rightarrow> string \<Rightarrow> string list" where
  "findall_from r ic skip p [] =
     (if 0 < skip then []
      else case run r ic (p, [], []) of
             [] \<Rightarrow> []
           | (p', cs', g) # _ \<Rightarrow> [group1 g])"
| "findall_from r ic skip p (c # cs) =
     (if 0 < skip then findall_from r ic (skip - 1) (Some c) cs
      else case run r ic (p, c # cs, []) of
             [] \<Rightarrow> findall_from r ic 0 (Some c) cs
           | (p', cs', g) # alts \<Rightarrow>
               if length cs' < length (c # cs)
               then group1 g # findall_from r ic (length cs - length cs') (Some c) cs
               else group1 g #
                 (case filter (\<lambda>(p2, cs2, g2). length cs2 < length (c # cs)) alts of
                    [] \<Rightarrow> findall_from r ic 0 (Some c) cs
                  | (p2, cs2, g2) # _ \<Rightarrow>
                      group1 g2 # findall_from r ic (length cs - length cs2) (Some c) cs))"

definition findall :: "regex \<Rightarrow> bool \<Rightarrow> string \<Rightarrow> string list" where
  "findall r ic s = findall_from r ic 0 None s"

section \<open>Python floats: \<open>float(str)\<close>, comparison and \<open>str(float)\<close>\<close>

text \<open>
  The floats that arise are not negative. \<open>Finite m e\<close> is the double \<open>m * 2^e\<close> with
  \<open>0 \<le> m < 2^53\<close> and \<open>-1074 \<le> e \<le> 971\<close>; a normal double has \<open>2^52 \<le> m\<close>, zero is
  \<open>Finite 0 0\<close>. \<open>PInf\<close> is \<open>inf\<close>. All arithmetic below is exact integer arithmetic.
\<close>

datatype pyfloat = Finite int int | PInf

function bitlen :: "int \<Rightarrow> int" where
  "bitlen n = (if n \<le> 0 then 0 else 1 + bitlen (n div 2))"
  by pat_completeness auto
termination
  by (relation "measure nat") auto

declare bitlen.simps [simp del]

function declen :: "int \<Rightarrow> int" where
  "declen n = (if n \<le> 0 then 0 else 1 + declen (n div 10))"
  by pat_completeness auto
termination
  by (relation "measure nat") auto

declare declen.simps [simp del]

text \<open>\<open>scaled_le b l num den\<close> is \<open>b^l \<le> num / den\<close> for an integer \<open>l\<close> of either sign.\<close>

definition scaled_le :: "int \<Rightarrow> int \<Rightarrow> int \<Rightarrow> int \<Rightarrow> bool" where
  "scaled_le b l num den =
     (if 0 \<le> l then b ^ nat l * den \<le> num else den \<le> num * b ^ nat (- l))"

text \<open>The largest \<open>l\<close> with \<open>2^l \<le> num / den\<close>, and the same for powers of ten.\<close>

definition floor_log2 :: "int \<Rightarrow> int \<Rightarrow> int" where
  "floor_log2 num den =
     (let l = bitlen num - bitlen den in if scaled_le 2 l num den then l else l - 1)"

definition floor_log10 :: "int \<Rightarrow> int \<Rightarrow> int" where
  "floor_log10 num den =
     (let l = declen num - declen den in if scaled_le 10 l num den then l else l - 1)"

text \<open>\<open>a / b\<close> rounded to the nearest integer, a tie to the even one.\<close>

definition round_half_even :: "int \<Rightarrow> int \<Rightarrow> int" where
  "round_half_even a b =
     (let q = a div b; r = a mod b
      in if 2 * r < b then q else if b < 2 * r then q + 1 else if even q then q else q + 1)"

text \<open>
  The double nearest to \<open>num / den\<close> (\<open>0 \<le> num\<close>, \<open>0 < den\<close>), ties to even, as IEEE 754
  rounds: 53 bits of mantissa, gradual underflow below \<open>2^-1022\<close>, \<open>inf\<close> from \<open>2^1024\<close> on.
\<close>

definition to_double :: "int \<Rightarrow> int \<Rightarrow> pyfloat" where
  "to_double num den =
     (if num = 0 then Finite 0 0
      else
        let e = max (floor_log2 num den - 52) (- 1074);
            m = (if 0 \<le> e then round_half_even num (den * 2 ^ nat e)
                 else round_half_even (num * 2 ^ nat (- e)) den);
            m' = (if m = 2 ^ 53 then 2 ^ 52 else m);
            e' = (if m = 2 ^ 53 then e + 1 else e)
        in if m' = 0 then Finite 0 0 else if 971 < e' then PInf else Finite m' e')"

datatype py_error = ValueError | IndexError | AttributeError

definition digits_val :: "string \<Rightarrow> int" where
  "digits_val ds = foldl (\<lambda>n c. 10 * n + (int (code c) - 48)) 0 ds"

text \<open>
  \<open>float(s)\<close> for the strings the source passes to it, which consist of the characters
  \<open>0\<close> to \<open>9\<close> and \<open>.\<close> only: such a string is a number when it has at most one point and
  at least one digit, and raises \<open>ValueError\<close> otherwise. (Python's \<open>float\<close> also reads
  signs, exponents, blanks, underscores, \<open>inf\<close> and \<open>nan\<close>; none can be written with these
  characters, and this function answers \<open>ValueError\<close> for them.)
\<close>

definition py_float :: "string \<Rightarrow> py_error + pyfloat" where
  "py_float s =
     (let ip = takeWhile (\<lambda>c. c \<noteq> CHR ''.'') s;
          fp = drop 1 (dropWhile (\<lambda>c. c \<noteq> CHR ''.'') s)
      in if list_all is_digit (ip @ fp) \<and> ip @ fp \<noteq> []
         then Inr (to_double (digits_val (ip @ fp)) (10 ^ length fp))
         else Inl ValueError)"

text \<open>\<open>x < y\<close> on floats.\<close>

fun float_lt :: "pyfloat \<Rightarrow> pyfloat \<Rightarrow> bool" where
  "float_lt (Finite m1 e1) (Finite m2 e2) =
     (let e = min e1 e2 in m1 * 2 ^ nat (e1 - e) < m2 * 2 ^ nat (e2 - e))"
| "float_lt (Finite m1 e1) PInf = True"
| "float_lt PInf y = False"

text \<open>
  \<open>max(xs)\<close>: \<open>ValueError\<close> on the empty list; otherwise the first of the largest
  elements (the running maximum is replaced only by a strictly larger element).
\<close>

fun py_max :: "pyfloat list \<Rightarrow> py_error + pyfloat" where
  "py_max [] = Inl ValueError"
| "py_max (x # xs) = Inr (foldl (\<lambda>m y. if float_lt m y then y else m) x xs)"

text \<open>
  \<open>str(x)\<close> is \<open>repr(x)\<close>: the shortest decimal digit string that reads back as \<open>x\<close>, the
  nearest to \<open>x\<close> when several of that length do. With \<open>k\<close> digits the candidates are
  \<open>x\<close> cut to \<open>k\<close> digits (\<open>lo\<close>) and the next \<open>k\<close>-digit number (\<open>lo + 1\<close>), both scaled by
  \<open>10^s\<close>. The result is the digit number and the scale.
\<close>

definition cand_ok :: "pyfloat \<Rightarrow> int \<Rightarrow> int \<Rightarrow> bool" where
  "cand_ok x c s =
     ((if 0 \<le> s then to_double (c * 10 ^ nat s) 1 else to_double c (10 ^ nat (- s))) = x)"

fun shortest_digits :: "pyfloat \<Rightarrow> int \<Rightarrow> int \<Rightarrow> int \<Rightarrow> nat \<Rightarrow> int \<Rightarrow> int \<times> int" where
  "shortest_digits x num den p 0 k = (round_half_even num den, 0)"
| "shortest_digits x num den p (Suc fuel) k =
     (let s = p - k + 1;
          a = (if 0 \<le> s then num else num * 10 ^ nat (- s));
          b = (if 0 \<le> s then den * 10 ^ nat s else den);
          lo = a div b;
          r = a mod b;
          ok_lo = cand_ok x lo s;
          ok_hi = cand_ok x (lo + 1) s
      in if ok_lo \<and> ok_hi
         then (if 2 * r < b then (lo, s) else if b < 2 * r then (lo + 1, s)
               else if even lo then (lo, s) else (lo + 1, s))
         else if ok_lo then (lo, s)
         else if ok_hi then (lo + 1, s)
         else shortest_digits x num den p fuel (k + 1))"

function dec_string :: "int \<Rightarrow> string" where
  "dec_string n =
     (if n < 10 then [char_of (48 + nat n)]
      else dec_string (n div 10) @ [char_of (48 + nat (n mod 10))])"
  by pat_completeness auto
termination
  by (relation "measure nat") auto

declare dec_string.simps [simp del]

definition strip_zeros :: "string \<Rightarrow> string" where
  "strip_zeros ds = rev (dropWhile (\<lambda>c. c = CHR ''0'') (rev ds))"

text \<open>
  The layout of \<open>repr\<close>: \<open>decpt\<close> is the position of the decimal point relative to the
  digits; exponent notation when \<open>decpt > 16\<close> or \<open>decpt < -3\<close>, else positional
  notation with at least one digit after the point.
\<close>

definition repr_layout :: "string \<Rightarrow> int \<Rightarrow> string" where
  "repr_layout ds decpt =
     (if 16 < decpt \<or> decpt < - 3
      then take 1 ds @ (if 1 < length ds then ''.'' @ drop 1 ds else '''')
           @ ''e'' @ (if 0 \<le> decpt - 1 then ''+'' else ''-'')
           @ (if \<bar>decpt - 1\<bar> < 10 then ''0'' else '''') @ dec_string \<bar>decpt - 1\<bar>
      else if decpt \<le> 0 then ''0.'' @ replicate (nat (- decpt)) (CHR ''0'') @ ds
      else if int (length ds) \<le> decpt
      then ds @ replicate (nat decpt - length ds) (CHR ''0'') @ ''.0''
      else take (nat decpt) ds @ ''.'' @ drop (nat decpt) ds)"

fun py_str :: "pyfloat \<Rightarrow> string" where
  "py_str PInf = ''inf''"
| "py_str (Finite m e) =
     (if m = 0 then ''0.0''
      else
        let num = (if 0 \<le> e then m * 2 ^ nat e else m);
            den = (if 0 \<le> e then 1 else 2 ^ nat (- e));
            p = floor_log10 num den;
            (c, s) = shortest_digits (Finite m e) num den p 17 1
        in repr_layout (strip_zeros (dec_string c)) (declen c + s))"

section \<open>Text field parser: \<open>src/textract_handler.py\<close>\<close>

text \<open>The dictionary \<open>fields\<close> of the source: four keys, each \<open>None\<close> or a string.\<close>

record fields =
  date :: "string option"
  start_time :: "string option"
  end_time :: "string option"
  total :: "string option"

text \<open>The patterns, in the order of the source.\<close>

definition digits :: "nat \<Rightarrow> nat \<Rightarrow> regex" where
  "digits lo hi = Rep lo (Some hi) [Digit]"

definition slash_or_dash :: regex where
  "slash_or_dash = One [Lit (CHR ''/''), Lit (CHR ''-'')]"

definition date_patterns :: "regex list" where
  "date_patterns =
     [seq [Boundary,
           Group 1 (seq [digits 1 2, slash_or_dash, digits 1 2, slash_or_dash, digits 4 4]),
           Boundary],
      seq [Boundary,
           Group 1 (seq [digits 4 4, slash_or_dash, digits 1 2, slash_or_dash, digits 1 2]),
           Boundary],
      seq [Boundary,
           Group 1 (seq [digits 1 2, Rep 1 None [Space], Rep 1 None [Wordc], Rep 1 None [Space],
                         digits 4 4]),
           Boundary],
      seq [Boundary,
           Group 1 (seq [Rep 1 None [Wordc], Rep 1 None [Space], digits 1 2,
                         Rep 0 (Some 1) [Lit (CHR '','')], Rep 1 None [Space], digits 4 4]),
           Boundary]]"

text \<open>\<open>\d{1,2}:\d{2}\s*(?:AM|PM|am|pm)?\<close>\<close>

definition time_body :: regex where
  "time_body =
     seq [digits 1 2, One [Lit (CHR '':'')], digits 2 2, Rep 0 None [Space],
          Opt (Alt (lit ''AM'') (Alt (lit ''PM'') (Alt (lit ''am'') (lit ''pm''))))]"

definition time_pattern :: regex where
  "time_pattern = Group 1 time_body"

definition time_range_pattern :: regex where
  "time_range_pattern =
     seq [Group 1 time_body, Rep 0 None [Space],
          Rep 1 None [Lit (CHR ''-''), Lit (CHR ''t''), Lit (CHR ''o'')],
          Rep 0 None [Space], Group 2 time_body]"

text \<open>\<open>([\d,]+\.?\d*)\<close> and \<open>[:\s]\<close>\<close>

definition amount :: regex where
  "amount =
     Group 1 (seq [Rep 1 None [Digit, Lit (CHR '','')], Rep 0 (Some 1) [Lit (CHR ''.'')],
                   Rep 0 None [Digit]])"

definition colon_or_space :: "atom list" where
  "colon_or_space = [Lit (CHR '':''), Space]"

definition total_patterns :: "regex list" where
  "total_patterns =
     [seq [lit ''AED'', Rep 0 None [Space], amount],
      seq [amount, Rep 0 None [Space], lit ''AED''],
      seq [lit ''TOTAL'', Rep 1 None colon_or_space, lit ''AED'', Rep 0 None [Space], amount],
      seq [lit ''TOTAL'', Rep 1 None colon_or_space, amount],
      seq [lit ''AMOUNT'', Rep 1 None colon_or_space, lit ''AED'', Rep 0 None [Space], amount],
      seq [lit ''GRAND'', Rep 1 None [Space], lit ''TOTAL'', Rep 1 None colon_or_space, amount],
      seq [Alt (lit ''TOTAL'') (Alt (lit ''AMOUNT'') (lit ''SUM'')), Rep 0 None colon_or_space,
           Rep 0 (Some 1) [Lit (CHR ''$'')], amount]]"

text \<open>\<open>\b(\d+\.?\d{0,2})\b\<close>\<close>

definition price_pattern :: regex where
  "price_pattern =
     seq [Boundary,
          Group 1 (seq [Rep 1 None [Digit], Rep 0 (Some 1) [Lit (CHR ''.'')], digits 0 2]),
          Boundary]"

text \<open>
  The loop over \<open>date_patterns\<close>: the first pattern that \<open>re.search\<close> finds anywhere in
  the text sets \<open>date\<close> to its group 1 and ends the loop.
\<close>

fun date_loop :: "regex list \<Rightarrow> string \<Rightarrow> fields \<Rightarrow> fields" where
  "date_loop [] lines f = f"
| "date_loop (pattern # ps) lines f =
     (case search pattern True lines of
        Some m \<Rightarrow> f\<lparr>date := group m 1\<rparr>
      | None \<Rightarrow> date_loop ps lines f)"

text \<open>\<open>xs[i]\<close> for \<open>i \<ge> 0\<close>: \<open>IndexError\<close> out of range.\<close>

definition py_index :: "'a list \<Rightarrow> nat \<Rightarrow> py_error + 'a" where
  "py_index xs i = (if i < length xs then Inr (xs ! i) else Inl IndexError)"

text \<open>The generic pairing of the matches of \<open>time_pattern\<close> (found without \<open>IGNORECASE\<close>).\<close>

definition times_step :: "string \<Rightarrow> fields \<Rightarrow> py_error + fields" where
  "times_step lines f =
     (let time_matches = findall time_pattern False lines
      in if 2 \<le> length time_matches
         then (case py_index time_matches 0 of
                 Inl e \<Rightarrow> Inl e
               | Inr t0 \<Rightarrow>
                   (case py_index time_matches 1 of
                      Inl e \<Rightarrow> Inl e
                    | Inr t1 \<Rightarrow> Inr (f\<lparr>start_time := Some t0, end_time := Some t1\<rparr>)))
         else if length time_matches = 1
         then (case py_index time_matches 0 of
                 Inl e \<Rightarrow> Inl e
               | Inr t0 \<Rightarrow> Inr (f\<lparr>start_time := Some t0\<rparr>))
         else Inr f)"

text \<open>The explicit range pattern, searched with \<open>IGNORECASE\<close>, overwrites both times.\<close>

definition range_step :: "string \<Rightarrow> fields \<Rightarrow> fields" where
  "range_step lines f =
     (case search time_range_pattern True lines of
        Some range_match \<Rightarrow> f\<lparr>start_time := group range_match 1, end_time := group range_match 2\<rparr>
      | None \<Rightarrow> f)"

text \<open>\<open>total_str.replace(',', '')\<close>; on \<open>None\<close> the attribute lookup raises.\<close>

definition replace_commas :: "string option \<Rightarrow> py_error + string" where
  "replace_commas s =
     (case s of None \<Rightarrow> Inl AttributeError | Some t \<Rightarrow> Inr (filter (\<lambda>c. c \<noteq> CHR '','') t))"

text \<open>
  The loop over \<open>total_patterns\<close>. A pattern that matches has its group 1 stripped of
  commas and passed to \<open>float\<close>; \<open>ValueError\<close> is caught and the loop continues with the
  next pattern, any other exception leaves the function.
\<close>

fun total_loop :: "regex list \<Rightarrow> string \<Rightarrow> fields \<Rightarrow> py_error + fields" where
  "total_loop [] lines f = Inr f"
| "total_loop (pattern # ps) lines f =
     (case search pattern True lines of
        None \<Rightarrow> total_loop ps lines f
      | Some m \<Rightarrow>
          (case replace_commas (group m 1) of
             Inl e \<Rightarrow> Inl e
           | Inr total_str \<Rightarrow>
               (case py_float total_str of
                  Inl ValueError \<Rightarrow> total_loop ps lines f
                | Inl e \<Rightarrow> Inl e
                | Inr x \<Rightarrow> Inr (f\<lparr>total := Some total_str\<rparr>))))"

text \<open>\<open>[float(p) for p in prices if float(p) > 0]\<close>\<close>

fun numeric_prices :: "string list \<Rightarrow> py_error + pyfloat list" where
  "numeric_prices [] = Inr []"
| "numeric_prices (p # ps) =
     (case py_float p of
        Inl e \<Rightarrow> Inl e
      | Inr c \<Rightarrow>
          if float_lt (Finite 0 0) c
          then (case py_float p of
                  Inl e \<Rightarrow> Inl e
                | Inr x \<Rightarrow>
                    (case numeric_prices ps of Inl e \<Rightarrow> Inl e | Inr xs \<Rightarrow> Inr (x # xs)))
          else numeric_prices ps)"

text \<open>\<open>not fields['total']\<close>: \<open>None\<close> and the empty string are falsy.\<close>

definition falsy :: "string option \<Rightarrow> bool" where
  "falsy v = (case v of None \<Rightarrow> True | Some s \<Rightarrow> s = [])"

text \<open>
  The fallback. The body of the \<open>try\<close> is \<open>fallback_body\<close>; \<open>except ValueError: pass\<close>
  turns a \<open>ValueError\<close> raised in it into the unchanged \<open>fields\<close>.
\<close>

definition fallback_body :: "string list \<Rightarrow> fields \<Rightarrow> py_error + fields" where
  "fallback_body prices f =
     (case numeric_prices prices of
        Inl e \<Rightarrow> Inl e
      | Inr nps \<Rightarrow>
          if nps \<noteq> []
          then (case py_max nps of
                  Inl e \<Rightarrow> Inl e
                | Inr x \<Rightarrow> Inr (f\<lparr>total := Some (py_str x)\<rparr>))
          else Inr f)"

definition fallback_step :: "string \<Rightarrow> fields \<Rightarrow> py_error + fields" where
  "fallback_step lines f =
     (if falsy (total f)
      then (let prices = findall price_pattern False lines
            in if prices \<noteq> []
               then (case fallback_body prices f of
                       Inl ValueError \<Rightarrow> Inr f
                     | Inl e \<Rightarrow> Inl e
                     | Inr f' \<Rightarrow> Inr f')
               else Inr f)
      else Inr f)"

definition parse_fields :: "string \<Rightarrow> py_error + fields" where
  "parse_fields lines =
     (let f0 = \<lparr>date = None, start_time = None, end_time = None, total = None\<rparr>;
          f1 = date_loop date_patterns lines f0
      in case times_step lines f1 of
           Inl e \<Rightarrow> Inl e
         | Inr f2 \<Rightarrow>
             (case total_loop total_patterns lines (range_step lines f2) of
                Inl e \<Rightarrow> Inl e
              | Inr f4 \<Rightarrow> fallback_step lines f4))"

subsection \<open>Notions used to state the properties of the parser\<close>

text \<open>
  The matcher state at position \<open>j\<close> of a text, and whether a pattern matches there.
\<close>

definition prev_char :: "string \<Rightarrow> nat \<Rightarrow> char option" where
  "prev_char s j = (if j = 0 then None else Some (s ! (j - 1)))"

definition run_at :: "regex \<Rightarrow> bool \<Rightarrow> string \<Rightarrow> nat \<Rightarrow> mstate list" where
  "run_at r ic s j = run r ic (prev_char s j, drop j s, [])"

definition matches_at :: "regex \<Rightarrow> bool \<Rightarrow> string \<Rightarrow> nat \<Rightarrow> bool" where
  "matches_at r ic s j = (run_at r ic s j \<noteq> [])"

text \<open>\<open>has_group n r\<close>: every match of \<open>r\<close> sets group \<open>n\<close>.\<close>

fun has_group :: "nat \<Rightarrow> regex \<Rightarrow> bool" where
  "has_group n (Group k r) = (k = n \<or> has_group n r)"
| "has_group n (Cat r1 r2) = (has_group n r1 \<or> has_group n r2)"
| "has_group n (Alt r1 r2) = (has_group n r1 \<and> has_group n r2)"
| "has_group n r = False"

fun first_some :: "'a option list \<Rightarrow> 'a option" where
  "first_some [] = None"
| "first_some (None # xs) = first_some xs"
| "first_some (Some x # xs) = Some x"

text \<open>
  What a total pattern contributes: group 1 of its match, without commas, when that
  text is a number for \<open>float\<close>; nothing when the pattern does not match or the text is
  no number.
\<close>

definition accepted :: "regex \<Rightarrow> string \<Rightarrow> string option" where
  "accepted pattern lines =
     (case search pattern True lines of
        None \<Rightarrow> None
      | Some m \<Rightarrow>
          (case group m 1 of
             None \<Rightarrow> None
           | Some s \<Rightarrow>
               (let t = filter (\<lambda>c. c \<noteq> CHR '','') s
                in case py_float t of Inl e \<Rightarrow> None | Inr x \<Rightarrow> Some t)))"

text \<open>Each field as a function of the text alone.\<close>

definition date_of :: "string \<Rightarrow> string option" where
  "date_of lines =
     (case first_some (map (\<lambda>p. search p True lines) date_patterns) of
        None \<Rightarrow> None
      | Some m \<Rightarrow> group m 1)"

definition times_of :: "string \<Rightarrow> string option \<times> string option" where
  "times_of lines =
     (case search time_range_pattern True lines of
        Some m \<Rightarrow> (group m 1, group m 2)
      | None \<Rightarrow>
          (case findall time_pattern False lines of
             [] \<Rightarrow> (None, None)
           | [t] \<Rightarrow> (Some t, None)
           | t0 # t1 # _ \<Rightarrow> (Some t0, Some t1)))"

definition fallback_total :: "string \<Rightarrow> string option" where
  "fallback_total lines =
     (case numeric_prices (findall price_pattern False lines) of
        Inl e \<Rightarrow> None
      | Inr nps \<Rightarrow> (case py_max nps of Inl e \<Rightarrow> None | Inr x \<Rightarrow> Some (py_str x)))"

definition total_of :: "string \<Rightarrow> string option" where
  "total_of lines =
     (case first_some (map (\<lambda>p. accepted p lines) total_patterns) of
        Some t \<Rightarrow> Some t
      | None \<Rightarrow> fallback_total lines)"

text \<open>
  The shape of a match of \<open>price_pattern\<close>: digits, then at most one point, then at most
  two digits. \<open>positive_prices\<close> are the floats of the matches that are greater than
  zero, in the order of the text.
\<close>

definition price_token :: "string \<Rightarrow> bool" where
  "price_token t =
     (\<exists>ds dot fs. t = ds @ dot @ fs \<and> ds \<noteq> [] \<and> list_all is_digit ds
        \<and> (dot = [] \<or> dot = ''.'') \<and> list_all is_digit fs \<and> length fs \<le> 2)"

definition positive_prices :: "string \<Rightarrow> pyfloat list" where
  "positive_prices lines =
     concat (map (\<lambda>t. case py_float t of
                        Inl e \<Rightarrow> []
                      | Inr x \<Rightarrow> if float_lt (Finite 0 0) x then [x] else [])
               (findall price_pattern False lines))"

text \<open>
  The date cascade as claim C7 words it, for comparison with \<open>date_of\<close>. These
  definitions follow the words of the claim, not the source: the first and the second
  pattern are those of the source, and the slot between day and year of the third and
  the fourth pattern takes a month name only (an English month name in full or cut to
  three letters, in either case of the letters) instead of any run of word characters.
\<close>

definition month_names :: "string list" where
  "month_names =
     [''january'', ''february'', ''march'', ''april'', ''may'', ''june'', ''july'', ''august'',
      ''september'', ''october'', ''november'', ''december'',
      ''jan'', ''feb'', ''mar'', ''apr'', ''jun'', ''jul'', ''aug'', ''sep'', ''oct'', ''nov'', ''dec'']"

definition month_name :: regex where
  "month_name = foldr (\<lambda>s r. Alt (lit s) r) (butlast month_names) (lit (last month_names))"

definition date_patterns_claimed :: "regex list" where
  "date_patterns_claimed =
     take 2 date_patterns @
     [seq [Boundary,
           Group 1 (seq [digits 1 2, Rep 1 None [Space], month_name, Rep 1 None [Space],
                         digits 4 4]),
           Boundary],
      seq [Boundary,
           Group 1 (seq [month_name, Rep 1 None [Space], digits 1 2,
                         Rep 0 (Some 1) [Lit (CHR '','')], Rep 1 None [Space], digits 4 4]),
           Boundary]]"

definition date_claimed :: "string \<Rightarrow> string option" where
  "date_claimed lines =
     (case first_some (map (\<lambda>p. search p True lines) date_patterns_claimed) of
        None \<Rightarrow> None
      | Some m \<Rightarrow> group m 1)"

section \<open>Tabular sink: \<open>src/csv_writer.py\<close>\<close>

text \<open>
  A row is a Python dictionary from column names to values; the callers pass strings
  and \<open>None\<close> (\<open>Optional[str]\<close>). The dictionaries are objects shared with the caller, so
  they live in a heap and \<open>write_csv\<close> receives references. The world holds the files
  (a path maps to the text of the file; directories are not modelled, so creating the
  output directory and opening the file always succeed), the heap, and the clock: the
  \<open>n\<close>-th call of \<open>datetime.now().isoformat()\<close> returns \<open>now_iso n\<close>.
\<close>

datatype pyval = PyNone | PyStr string

type_synonym pydict = "string \<rightharpoonup> pyval"

record world =
  files :: "string \<rightharpoonup> string"
  heap :: "nat \<Rightarrow> pydict"
  now_calls :: nat
  now_iso :: "nat \<Rightarrow> string"

definition headers :: "string list" where
  "headers = [''date'', ''start_time'', ''end_time'', ''total'', ''source_file'', ''processed_at'']"

definition datetime_now_isoformat :: "world \<Rightarrow> string \<times> world" where
  "datetime_now_isoformat w = (now_iso w (now_calls w), w\<lparr>now_calls := Suc (now_calls w)\<rparr>)"

text \<open>\<open>'processed_at' not in row or not row['processed_at']\<close>\<close>

definition needs_stamp :: "pydict \<Rightarrow> bool" where
  "needs_stamp row =
     (case row ''processed_at'' of
        None \<Rightarrow> True
      | Some PyNone \<Rightarrow> True
      | Some (PyStr s) \<Rightarrow> s = [])"

text \<open>The first loop of \<open>write_csv\<close>: it writes into the caller's dictionaries.\<close>

fun stamp_rows :: "nat list \<Rightarrow> world \<Rightarrow> world" where
  "stamp_rows [] w = w"
| "stamp_rows (row # rows) w =
     stamp_rows rows
       (if needs_stamp (heap w row)
        then (let (ts, w') = datetime_now_isoformat w
              in w'\<lparr>heap := (heap w')(row := (heap w' row)(''processed_at'' \<mapsto> PyStr ts))\<rparr>)
        else w)"

text \<open>
  \<open>csv.writer\<close> with the default dialect: delimiter \<open>,\<close>, quote character \<open>"\<close>, quotes
  doubled inside a quoted field, minimal quoting (a field is quoted when it holds the
  delimiter, the quote character or a character of the line terminator), line
  terminator \<open>\r\n\<close>. \<open>None\<close> is written as the empty field. A row whose text would be
  empty (a single empty field) is written as \<open>""\<close>.
\<close>

definition DQ :: char where "DQ = CHR 0x22"
definition CR :: char where "CR = CHR 0x0D"
definition LF :: char where "LF = CHR 0x0A"
definition COMMA :: char where "COMMA = CHR '',''"

definition needs_quotes :: "string \<Rightarrow> bool" where
  "needs_quotes s = list_ex (\<lambda>c. c = COMMA \<or> c = DQ \<or> c = CR \<or> c = LF) s"

definition quoted :: "string \<Rightarrow> string" where
  "quoted s = [DQ] @ concat (map (\<lambda>c. if c = DQ then [DQ, DQ] else [c]) s) @ [DQ]"

definition csv_field :: "pyval \<Rightarrow> string" where
  "csv_field v =
     (case v of
        PyNone \<Rightarrow> ''''
      | PyStr s \<Rightarrow> if needs_quotes s then quoted s else s)"

fun join_fields :: "string list \<Rightarrow> string" where
  "join_fields [] = ''''"
| "join_fields [x] = x"
| "join_fields (x # xs) = x @ [COMMA] @ join_fields xs"

definition csv_row :: "pyval list \<Rightarrow> string" where
  "csv_row vs =
     (let line = join_fields (map csv_field vs)
      in (if vs \<noteq> [] \<and> line = [] then [DQ, DQ] else line) @ [CR, LF])"

text \<open>
  \<open>clean_row\<close>: the value of every header, \<open>None\<close> for a missing key; \<open>DictWriter\<close> writes
  the values in the order of the headers.
\<close>

definition clean_row :: "pydict \<Rightarrow> pyval list" where
  "clean_row row = map (\<lambda>header. case row header of None \<Rightarrow> PyNone | Some v \<Rightarrow> v) headers"

definition header_line :: string where
  "header_line = csv_row (map PyStr headers)"

definition rows_text :: "world \<Rightarrow> nat list \<Rightarrow> string" where
  "rows_text w rows = concat (map (\<lambda>row. csv_row (clean_row (heap w row))) rows)"

text \<open>
  \<open>write_csv\<close> run alone: the existence test, the stamping loop, the file opened for
  appending (created empty when missing), the header when the file did not exist at
  the test, then the rows. Locking has no effect on a single caller.
\<close>

definition write_csv :: "nat list \<Rightarrow> string \<Rightarrow> world \<Rightarrow> world" where
  "write_csv rows out_path w =
     (let file_exists = (files w out_path \<noteq> None);
          w1 = stamp_rows rows w;
          old = (case files w1 out_path of None \<Rightarrow> '''' | Some text \<Rightarrow> text);
          header = (if \<not> file_exists then header_line else '''')
      in w1\<lparr>files := (files w1)(out_path \<mapsto> old @ header @ rows_text w1 rows)\<rparr>)"

text \<open>
  The two rows of the module's own test (\<open>test_rows\<close>), in a world without files: the
  first row has \<open>processed_at\<close> set to \<open>None\<close>, the second has no such key.
\<close>

definition test_world :: world where
  "test_world =
     \<lparr>files = Map.empty,
      heap = (\<lambda>r. Map.empty)
        (0 := [''date'' \<mapsto> PyStr ''2024-01-15'', ''start_time'' \<mapsto> PyStr ''10:30 AM'',
               ''end_time'' \<mapsto> PyStr ''11:15 AM'', ''total'' \<mapsto> PyStr ''125.50'',
               ''source_file'' \<mapsto> PyStr ''test_receipt.jpg'', ''processed_at'' \<mapsto> PyNone],
         1 := [''date'' \<mapsto> PyStr ''2024-01-16'', ''start_time'' \<mapsto> PyStr ''14:00'',
               ''end_time'' \<mapsto> PyStr ''15:30'', ''total'' \<mapsto> PyStr ''89.75'',
               ''source_file'' \<mapsto> PyStr ''receipt2.jpg'']),
      now_calls = 0,
      now_iso = (\<lambda>n. if n = 0 then ''2024-01-20T09:00:00.000001''
                     else ''2024-01-20T09:00:00.000002'')\<rparr>"


definition physical_lines :: "string \<Rightarrow> nat" where
  "physical_lines text = count_list text LF"

subsection \<open>Reading back: \<open>read_csv\<close>\<close>

text \<open>
  \<open>read_csv\<close> opens the file in text mode without \<open>newline=''\<close>: Python translates
  \<open>\r\n\<close> and a lone \<open>\r\<close> to \<open>\n\<close> and hands the text to the reader line by line, each
  line with its \<open>\n\<close>.
\<close>

fun universal_newlines :: "string \<Rightarrow> string" where
  "universal_newlines [] = []"
| "universal_newlines [c] = (if c = CR then [LF] else [c])"
| "universal_newlines (c # d # cs) =
     (if c = CR \<and> d = LF then LF # universal_newlines cs
      else if c = CR then LF # universal_newlines (d # cs)
      else c # universal_newlines (d # cs))"

fun lines_keepends :: "string \<Rightarrow> string list" where
  "lines_keepends [] = []"
| "lines_keepends (c # cs) =
     (if c = LF then [c] # lines_keepends cs
      else (case lines_keepends cs of [] \<Rightarrow> [[c]] | l # ls \<Rightarrow> (c # l) # ls))"

text \<open>
  The state machine of \<open>csv.reader\<close> (\<open>parse_process_char\<close> in \<open>_csv.c\<close>) for the default
  dialect, which has no escape character, does not skip blanks and is not strict. The
  character \<open>None\<close> is the end of a line. A field longer than the field size limit
  raises \<open>csv.Error\<close>, as does a character after a line end outside quotes.
\<close>

datatype rstate =
  START_RECORD | START_FIELD | IN_FIELD | IN_QUOTED_FIELD | QUOTE_IN_QUOTED_FIELD | EAT_CRNL

record reader =
  r_state :: rstate
  r_fields :: "string list"
  r_field :: string

datatype csv_error = FieldTooLarge | NewlineInUnquotedField

definition field_limit :: int where
  "field_limit = 131072"

definition parse_reset :: reader where
  "parse_reset = \<lparr>r_state = START_RECORD, r_fields = [], r_field = []\<rparr>"

definition parse_add_char :: "reader \<Rightarrow> char \<Rightarrow> csv_error + reader" where
  "parse_add_char r c =
     (if field_limit \<le> int (length (r_field r)) then Inl FieldTooLarge
      else Inr (r\<lparr>r_field := r_field r @ [c]\<rparr>))"

definition parse_save_field :: "reader \<Rightarrow> reader" where
  "parse_save_field r = r\<lparr>r_fields := r_fields r @ [r_field r], r_field := []\<rparr>"

definition is_newline :: "char option \<Rightarrow> bool" where
  "is_newline c = (c = Some LF \<or> c = Some CR)"

text \<open>
  \<open>start_field\<close> is the case \<open>START_FIELD\<close>, which the case \<open>START_RECORD\<close> falls through
  to for a character that does not end the line.
\<close>

definition start_field :: "reader \<Rightarrow> char option \<Rightarrow> csv_error + reader" where
  "start_field r c =
     (if is_newline c \<or> c = None
      then Inr ((parse_save_field r)\<lparr>r_state := (if c = None then START_RECORD else EAT_CRNL)\<rparr>)
      else if c = Some DQ then Inr (r\<lparr>r_state := IN_QUOTED_FIELD\<rparr>)
      else if c = Some COMMA then Inr (parse_save_field r)
      else (case parse_add_char r (the c) of
              Inl e \<Rightarrow> Inl e
            | Inr r' \<Rightarrow> Inr (r'\<lparr>r_state := IN_FIELD\<rparr>)))"

definition parse_process_char :: "reader \<Rightarrow> char option \<Rightarrow> csv_error + reader" where
  "parse_process_char r c =
     (case r_state r of
        START_RECORD \<Rightarrow>
          if c = None then Inr r
          else if is_newline c then Inr (r\<lparr>r_state := EAT_CRNL\<rparr>)
          else start_field (r\<lparr>r_state := START_FIELD\<rparr>) c
      | START_FIELD \<Rightarrow> start_field r c
      | IN_FIELD \<Rightarrow>
          if is_newline c \<or> c = None
          then Inr ((parse_save_field r)\<lparr>r_state := (if c = None then START_RECORD else EAT_CRNL)\<rparr>)
          else if c = Some COMMA then Inr ((parse_save_field r)\<lparr>r_state := START_FIELD\<rparr>)
          else parse_add_char r (the c)
      | IN_QUOTED_FIELD \<Rightarrow>
          if c = None then Inr r
          else if c = Some DQ then Inr (r\<lparr>r_state := QUOTE_IN_QUOTED_FIELD\<rparr>)
          else parse_add_char r (the c)
      | QUOTE_IN_QUOTED_FIELD \<Rightarrow>
          if c = Some DQ
          then (case parse_add_char r DQ of
                  Inl e \<Rightarrow> Inl e
                | Inr r' \<Rightarrow> Inr (r'\<lparr>r_state := IN_QUOTED_FIELD\<rparr>))
          else if c = Some COMMA then Inr ((parse_save_field r)\<lparr>r_state := START_FIELD\<rparr>)
          else if is_newline c \<or> c = None
          then Inr ((parse_save_field r)\<lparr>r_state := (if c = None then START_RECORD else EAT_CRNL)\<rparr>)
          else (case parse_add_char r (the c) of
                  Inl e \<Rightarrow> Inl e
                | Inr r' \<Rightarrow> Inr (r'\<lparr>r_state := IN_FIELD\<rparr>))
      | EAT_CRNL \<Rightarrow>
          if is_newline c then Inr r
          else if c = None then Inr (r\<lparr>r_state := START_RECORD\<rparr>)
          else Inl NewlineInUnquotedField)"

text \<open>One line: its characters, then the end of the line.\<close>

fun feed_line :: "reader \<Rightarrow> string \<Rightarrow> csv_error + reader" where
  "feed_line r [] = parse_process_char r None"
| "feed_line r (c # cs) =
     (case parse_process_char r (Some c) of
        Inl e \<Rightarrow> Inl e
      | Inr r' \<Rightarrow> feed_line r' cs)"

text \<open>
  Iterating the reader to its end: lines are fed until the state is \<open>START_RECORD\<close>
  again, which completes a record, and the reader is reset for the next one. When the
  lines end inside a record (inside a quoted field), the pending field is saved and the
  record is returned.
\<close>

fun read_records :: "reader \<Rightarrow> string list list \<Rightarrow> string list \<Rightarrow> csv_error + string list list" where
  "read_records r acc [] =
     (if r_field r \<noteq> [] \<or> r_state r = IN_QUOTED_FIELD
      then Inr (acc @ [r_fields (parse_save_field r)])
      else Inr acc)"
| "read_records r acc (l # ls) =
     (case feed_line r l of
        Inl e \<Rightarrow> Inl e
      | Inr r' \<Rightarrow>
          if r_state r' = START_RECORD then read_records parse_reset (acc @ [r_fields r']) ls
          else read_records r' acc ls)"

text \<open>
  \<open>csv.DictReader\<close>: the first record gives the field names; every later record that
  is not \<open>[]\<close> gives a dictionary. A record longer than the field names puts the rest
  under the key \<open>None\<close>; a shorter one maps the remaining names to \<open>None\<close>.
\<close>

datatype rval = RStr string | RNone | RList "string list"

type_synonym rdict = "string option \<rightharpoonup> rval"

fun zip_dict :: "string list \<Rightarrow> string list \<Rightarrow> rdict \<Rightarrow> rdict" where
  "zip_dict (k # ks) (v # vs) d = zip_dict ks vs (d(Some k \<mapsto> RStr v))"
| "zip_dict ks vs d = d"

definition dict_row :: "string list \<Rightarrow> string list \<Rightarrow> rdict" where
  "dict_row fieldnames row =
     (let d = zip_dict fieldnames row Map.empty;
          lf = length fieldnames;
          lr = length row
      in if lf < lr then d(None \<mapsto> RList (drop lf row))
         else if lr < lf then foldl (\<lambda>d key. d(Some key \<mapsto> RNone)) d (drop lr fieldnames)
         else d)"

definition dict_reader :: "string list list \<Rightarrow> rdict list" where
  "dict_reader records =
     (case records of
        [] \<Rightarrow> []
      | fieldnames # rows \<Rightarrow> map (dict_row fieldnames) (filter (\<lambda>row. row \<noteq> []) rows))"

definition read_csv :: "string \<Rightarrow> world \<Rightarrow> csv_error + rdict list" where
  "read_csv csv_path w =
     (case files w csv_path of
        None \<Rightarrow> Inr []
      | Some text \<Rightarrow>
          (case read_records parse_reset [] (lines_keepends (universal_newlines text)) of
             Inl e \<Rightarrow> Inl e
           | Inr records \<Rightarrow> Inr (dict_reader records)))"

subsection \<open>Concurrent calls of \<open>write_csv\<close>\<close>

text \<open>
  The same function in steps, for calls that run at the same time on one world. A call
  is at one of the places of the source: the existence test (line 41), the stamping
  loop (44-46), \<open>open\<close> (49), \<open>flock(LOCK_EX)\<close> (52), the header (57-58), the rows (61-67),
  \<open>flock(LOCK_UN)\<close> (71), and the end of the \<open>with\<close> block, which closes the file. What
  the writer writes goes to the buffer of the file object and reaches the file when it
  is closed. A call waits at \<open>flock\<close> while another call holds the lock of the path.
  The steps are those of a call whose header and rows fit in the buffer of the file
  object (some thousand characters; the size depends on the Python version and the
  file system): Python writes a longer output to the file in parts as the buffer fills,
  while the call still holds the lock, which these steps do not show.
\<close>

datatype place =
  AtExists | AtStamp | AtOpen | AtLock | AtHeader | AtRows | AtUnlock | AtClose | Returned

record call =
  c_place :: place
  c_rows :: "nat list"
  c_out_path :: string
  c_file_exists :: bool
  c_buffer :: string

record system =
  s_world :: world
  s_locks :: "string \<rightharpoonup> nat"
  s_calls :: "call list"

definition new_call :: "nat list \<Rightarrow> string \<Rightarrow> call" where
  "new_call rows out_path =
     \<lparr>c_place = AtExists, c_rows = rows, c_out_path = out_path, c_file_exists = False,
      c_buffer = ''''\<rparr>"

text \<open>One step of call \<open>i\<close>; \<open>None\<close> when the call cannot move (it waits for the lock, it
  has returned, or there is no such call).\<close>

definition call_step :: "nat \<Rightarrow> system \<Rightarrow> system option" where
  "call_step i s =
     (if length (s_calls s) \<le> i then None
      else
        let c = s_calls s ! i; w = s_world s; path = c_out_path c;
            at = (\<lambda>c'. s\<lparr>s_calls := (s_calls s)[i := c']\<rparr>)
        in case c_place c of
             AtExists \<Rightarrow>
               Some (at (c\<lparr>c_file_exists := (files w path \<noteq> None), c_place := AtStamp\<rparr>))
           | AtStamp \<Rightarrow>
               Some ((at (c\<lparr>c_place := AtOpen\<rparr>))\<lparr>s_world := stamp_rows (c_rows c) w\<rparr>)
           | AtOpen \<Rightarrow>
               Some ((at (c\<lparr>c_place := AtLock\<rparr>))
                 \<lparr>s_world := (case files w path of
                                 None \<Rightarrow> w\<lparr>files := (files w)(path \<mapsto> '''')\<rparr>
                               | Some text \<Rightarrow> w)\<rparr>)
           | AtLock \<Rightarrow>
               (case s_locks s path of
                  None \<Rightarrow> Some ((at (c\<lparr>c_place := AtHeader\<rparr>))\<lparr>s_locks := (s_locks s)(path \<mapsto> i)\<rparr>)
                | Some holder \<Rightarrow> None)
           | AtHeader \<Rightarrow>
               Some (at (c\<lparr>c_buffer := c_buffer c @ (if \<not> c_file_exists c then header_line else ''''),
                          c_place := AtRows\<rparr>))
           | AtRows \<Rightarrow>
               Some (at (c\<lparr>c_buffer := c_buffer c @ rows_text w (c_rows c), c_place := AtUnlock\<rparr>))
           | AtUnlock \<Rightarrow>
               Some ((at (c\<lparr>c_place := AtClose\<rparr>))\<lparr>s_locks := (s_locks s)(path := None)\<rparr>)
           | AtClose \<Rightarrow>
               Some ((at (c\<lparr>c_buffer := '''', c_place := Returned\<rparr>))
                 \<lparr>s_world := w\<lparr>files := (files w)(path \<mapsto>
                     (case files w path of None \<Rightarrow> '''' | Some text \<Rightarrow> text) @ c_buffer c)\<rparr>\<rparr>)
           | Returned \<Rightarrow> None)"

text \<open>A schedule names the call that moves at each step.\<close>

fun run_schedule :: "nat list \<Rightarrow> system \<Rightarrow> system option" where
  "run_schedule [] s = Some s"
| "run_schedule (i # sched) s =
     (case call_step i s of None \<Rightarrow> None | Some s' \<Rightarrow> run_schedule sched s')"

text \<open>Two calls of one row each, for the same path, in the world of the test rows.\<close>

definition two_calls :: system where
  "two_calls =
     \<lparr>s_world = test_world, s_locks = Map.empty,
      s_calls = [new_call [0] ''out.csv'', new_call [1] ''out.csv'']\<rparr>"

subsection \<open>Notions used to state the properties of the sink\<close>

text \<open>
  The text a value is written as, the value \<open>write_csv\<close> writes for a header, and the
  values that \<open>read_csv\<close> can give back: the text mode of \<open>read_csv\<close> replaces a carriage
  return, and the reader refuses a field beyond its size limit.
\<close>

definition text_of :: "pyval \<Rightarrow> string" where
  "text_of v = (case v of PyNone \<Rightarrow> '''' | PyStr s \<Rightarrow> s)"

definition written_value :: "pydict \<Rightarrow> string \<Rightarrow> pyval" where
  "written_value row header = (case row header of None \<Rightarrow> PyNone | Some v \<Rightarrow> v)"

definition readable :: "pyval \<Rightarrow> bool" where
  "readable v = (case v of PyNone \<Rightarrow> True | PyStr s \<Rightarrow> CR \<notin> set s \<and> int (length s) \<le> field_limit)"

text \<open>A string that \<open>csv.writer\<close> leaves without quotes.\<close>

definition plain :: "string \<Rightarrow> bool" where
  "plain s = (\<forall>c\<in>set s. c \<noteq> COMMA \<and> c \<noteq> DQ \<and> c \<noteq> CR \<and> c \<noteq> LF)"

text \<open>A row of the file after the translation of the line ends, and the file that
  \<open>write_csv\<close> leaves: the header, then rows.\<close>

definition row_line :: "pyval list \<Rightarrow> string" where
  "row_line vs = join_fields (map csv_field vs) @ [LF]"

definition sink_file :: "pyval list list \<Rightarrow> string" where
  "sink_file old = header_line @ concat (map csv_row old)"

text \<open>
  The reader on a text that is empty or ends with a line feed, character by character:
  after every line feed the end of the line is processed, as \<open>read_records\<close> does at
  the end of each line (lemma \<open>read_records_text\<close>).
\<close>

fun read_text :: "reader \<Rightarrow> string list list \<Rightarrow> string \<Rightarrow> csv_error + string list list" where
  "read_text r acc [] = read_records r acc []"
| "read_text r acc (c # cs) =
     (case parse_process_char r (Some c) of
        Inl e \<Rightarrow> Inl e
      | Inr r1 \<Rightarrow>
          if c = LF
          then (case parse_process_char r1 None of
                  Inl e \<Rightarrow> Inl e
                | Inr r2 \<Rightarrow>
                    if r_state r2 = START_RECORD
                    then read_text parse_reset (acc @ [r_fields r2]) cs
                    else read_text r2 acc cs)
          else read_text r1 acc cs)"

section \<open>Properties of the flattener\<close>

lemma item_fields_loop_last:
  "item_fields_loop fs (n, p) =
     (if filter (\<lambda>f. get_Text (field_Type f) = ''ITEM'') fs = [] then n
      else last_tagged ''ITEM'' fs,
      if filter (\<lambda>f. get_Text (field_Type f) = ''PRICE'') fs = [] then p
      else last_tagged ''PRICE'' fs)"
proof (induction fs arbitrary: n p)
  case Nil
  show ?case by simp
next
  case (Cons f fs)
  show ?case
    by (simp add: Cons.IH Let_def last_tagged_def split: list.splits)
qed

lemma item_fields_loop_init:
  "item_fields_loop (get_list (LineItemExpenseFields li)) ('''', '''') =
     (item_name_of li, item_price_of li)"
  by (simp add: item_fields_loop_last item_name_of_def item_price_of_def last_tagged_def)

lemma summary_loop_items: "items (summary_loop fs ex) = items ex"
  by (induction fs arbitrary: ex) (simp_all add: Let_def)

lemma line_items_loop_items:
  "items (line_items_loop lis ex) =
     items ex @ map (\<lambda>li. (item_name_of li, item_price_of li)) (filter yields_item lis)"
  by (induction lis arbitrary: ex)
     (simp_all add: item_fields_loop_init truthy_str_def yields_item_def)

lemma line_groups_loop_items:
  "items (line_groups_loop gs ex) =
     items ex @ map (\<lambda>li. (item_name_of li, item_price_of li))
       (filter yields_item (concat (map (\<lambda>g. get_list (LineItems g)) gs)))"
  by (induction gs arbitrary: ex) (simp_all add: line_items_loop_items)

lemma expense_docs_loop_items:
  "items (expense_docs_loop ds ex) =
     items ex @ map (\<lambda>li. (item_name_of li, item_price_of li))
       (filter yields_item
         (concat (map (\<lambda>d. concat (map (\<lambda>g. get_list (LineItems g)) (get_list (LineItemGroups d)))) ds)))"
  by (induction ds arbitrary: ex) (simp_all add: line_groups_loop_items summary_loop_items)

lemma extract_items:
  "items (extract_data_from_json fname now data) =
     map (\<lambda>li. (item_name_of li, item_price_of li)) (filter yields_item (all_line_items data))"
  by (simp add: extract_data_from_json_def expense_docs_loop_items all_line_items_def)

text \<open>
  Claim C8. The flattened record holds one item per line item whose field scan gives a
  non-empty name or a non-empty price, over all groups of all expense documents; a line
  item whose name and price are both empty after the scan adds nothing.
\<close>

theorem extract_item_count:
  "length (items (extract_data_from_json fname now data)) =
     length (filter yields_item (all_line_items data))"
proof -
  have "items (extract_data_from_json fname now data) =
          map (\<lambda>li. (item_name_of li, item_price_of li)) (filter yields_item (all_line_items data))"
    by (rule extract_items)
  then show ?thesis by simp
qed

text \<open>
  The document \<open>three_items_doc\<close> has three line items, of which the second ends the
  scan with an empty name and an empty price: two items are retained.
\<close>

theorem extract_item_count_witness:
  "length (all_line_items three_items_doc) = 3
   \<and> length (items (extract_data_from_json ''r1'' ''2024-01-01T00:00:00'' three_items_doc)) = 2"
  using extract_item_count [of "''r1''" "''2024-01-01T00:00:00''" three_items_doc]
  by (simp add: three_items_doc_def all_line_items_def get_list_def yields_item_def
        item_name_of_def item_price_of_def last_tagged_def get_Text_def)

lemma three_items_doc_items:
  "items (extract_data_from_json ''r1'' ''2024-01-01T00:00:00'' three_items_doc) =
     [(''Coffee'', ''3.50''), ('''', ''1.00'')]"
  by (simp add: three_items_doc_def extract_data_from_json_def get_list_def get_Text_def
        truthy_str_def)

section \<open>Properties of the matcher\<close>

lemma rep_run_groups:
  "st' \<in> set (rep_run ic as lo hi st) \<Longrightarrow> snd (snd st') = snd (snd st)"
  by (induction ic as lo hi st rule: rep_run.induct) (auto split: if_splits)

lemma run_groups_persist:
  "st' \<in> set (run r ic st) \<Longrightarrow> map_of (snd (snd st)) n \<noteq> None \<Longrightarrow> map_of (snd (snd st')) n \<noteq> None"
proof (induction r arbitrary: st st')
  case (Rep lo hi as)
  then show ?case using rep_run_groups by fastforce
qed (auto split: prod.splits list.splits if_splits)

lemma run_has_group:
  "has_group n r \<Longrightarrow> st' \<in> set (run r ic st) \<Longrightarrow> map_of (snd (snd st')) n \<noteq> None"
proof (induction r arbitrary: st st')
  case (Cat r1 r2)
  from Cat.prems(2) obtain mid where mid: "mid \<in> set (run r1 ic st)" "st' \<in> set (run r2 ic mid)"
    by auto
  show ?case
  proof (cases "has_group n r2")
    case True
    then show ?thesis using Cat.IH(2) mid(2) by blast
  next
    case False
    then have "has_group n r1" using Cat.prems(1) by simp
    then have "map_of (snd (snd mid)) n \<noteq> None" using Cat.IH(1) mid(1) by blast
    then show ?thesis using run_groups_persist mid(2) by blast
  qed
next
  case (Group k r)
  then show ?case by (auto split: prod.splits)
qed auto



lemma drop_Cons_nth:
  assumes "c # cs = drop i s"
  shows "i < length s" "s ! i = c" "cs = drop (Suc i) s"
proof -
  show "i < length s" using assms by (metis drop_all list.distinct(1) not_le)
  then have "drop i s = s ! i # drop (Suc i) s" by (rule Cons_nth_drop_Suc[symmetric])
  with assms show "s ! i = c" "cs = drop (Suc i) s" by simp_all
qed

lemma search_from_None:
  "search_from r ic i p cs = None \<Longrightarrow> p = prev_char s i \<Longrightarrow> cs = drop i s \<Longrightarrow> i \<le> length s \<Longrightarrow>
     i \<le> j \<Longrightarrow> j \<le> length s \<Longrightarrow> run_at r ic s j = []"
proof (induction cs arbitrary: i p)
  case Nil
  then have "i = length s" by simp
  with Nil show ?case by (auto simp: run_at_def split: list.splits)
next
  case (Cons c cs)
  note d = drop_Cons_nth[OF Cons.prems(3)]
  from Cons.prems(1) have here: "run r ic (p, c # cs, []) = []"
    and rest: "search_from r ic (Suc i) (Some c) cs = None"
    by (auto split: list.splits)
  show ?case
  proof (cases "j = i")
    case True
    then show ?thesis using here Cons.prems(2,3) by (simp add: run_at_def)
  next
    case False
    then have "Suc i \<le> j" using Cons.prems(5) by simp
    moreover have "Some c = prev_char s (Suc i)" using d by (simp add: prev_char_def)
    ultimately show ?thesis using Cons.IH[OF rest _ d(3)] d(1) Cons.prems(6) by simp
  qed
qed

lemma search_from_Some:
  "search_from r ic i p cs = Some m \<Longrightarrow> p = prev_char s i \<Longrightarrow> cs = drop i s \<Longrightarrow> i \<le> length s \<Longrightarrow>
     i \<le> m_start m \<and> m_start m \<le> length s
     \<and> (\<forall>j. i \<le> j \<and> j < m_start m \<longrightarrow> run_at r ic s j = [])
     \<and> (\<exists>p' cs' g alts. run_at r ic s (m_start m) = (p', cs', g) # alts
           \<and> snd m = (0, take (length s - m_start m - length cs') (drop (m_start m) s)) # g)"
proof (induction cs arbitrary: i p)
  case Nil
  then have "i = length s" by simp
  with Nil show ?case by (auto simp: run_at_def m_start_def split: list.splits)
next
  case (Cons c cs)
  note d = drop_Cons_nth[OF Cons.prems(3)]
  show ?case
  proof (cases "run r ic (p, c # cs, [])")
    case Nil
    then have rest: "search_from r ic (Suc i) (Some c) cs = Some m" using Cons.prems(1) by simp
    have pc: "Some c = prev_char s (Suc i)" using d by (simp add: prev_char_def)
    have here: "run_at r ic s i = []" using Nil Cons.prems(2,3) by (simp add: run_at_def)
    from Cons.IH[OF rest pc d(3)] d(1)
    have ih: "Suc i \<le> m_start m" "m_start m \<le> length s"
      "\<forall>j. Suc i \<le> j \<and> j < m_start m \<longrightarrow> run_at r ic s j = []"
      "\<exists>p' cs' g alts. run_at r ic s (m_start m) = (p', cs', g) # alts
           \<and> snd m = (0, take (length s - m_start m - length cs') (drop (m_start m) s)) # g"
      by auto
    have "\<forall>j. i \<le> j \<and> j < m_start m \<longrightarrow> run_at r ic s j = []"
    proof (intro allI impI)
      fix j assume "i \<le> j \<and> j < m_start m"
      then show "run_at r ic s j = []" using here ih(3) by (cases "j = i") auto
    qed
    then show ?thesis using ih by auto
  next
    case (Cons st alts)
    obtain p' cs' g where st: "st = (p', cs', g)" by (cases st) auto
    have m: "m = (i, (0, take (length (c # cs) - length cs') (c # cs)) # g)"
      using Cons st Cons.prems(1) by simp
    have "run_at r ic s i = (p', cs', g) # alts"
      using Cons st Cons.prems(2,3) by (simp add: run_at_def)
    moreover have "length (c # cs) = length s - i" using Cons.prems(3) by (metis length_drop)
    ultimately show ?thesis using m Cons.prems(3,4) by (auto simp: m_start_def)
  qed
qed

lemma search_None:
  "search r ic s = None \<Longrightarrow> j \<le> length s \<Longrightarrow> run_at r ic s j = []"
  using search_from_None[of r ic 0 None s s j] by (simp add: search_def prev_char_def)

lemma search_Some:
  "search r ic s = Some m \<Longrightarrow>
     m_start m \<le> length s
     \<and> (\<forall>j. j < m_start m \<longrightarrow> run_at r ic s j = [])
     \<and> (\<exists>p' cs' g alts. run_at r ic s (m_start m) = (p', cs', g) # alts
           \<and> snd m = (0, take (length s - m_start m - length cs') (drop (m_start m) s)) # g)"
  using search_from_Some[of r ic 0 None s m s] by (simp add: search_def prev_char_def)

lemma search_group:
  assumes "search r ic s = Some m" "has_group n r"
  shows "group m n \<noteq> None"
proof -
  from search_Some[OF assms(1)] obtain p' cs' g alts where
    r: "run_at r ic s (m_start m) = (p', cs', g) # alts" and
    m: "snd m = (0, take (length s - m_start m - length cs') (drop (m_start m) s)) # g"
    by blast
  have "(p', cs', g) \<in> set (run r ic (prev_char s (m_start m), drop (m_start m) s, []))"
    using r by (simp add: run_at_def)
  from run_has_group[OF assms(2) this] have "map_of g n \<noteq> None" by simp
  then show ?thesis using m by (auto simp: group_def)
qed


lemma date_loop_eq:
  "date_loop ps lines f =
     (case first_some (map (\<lambda>p. search p True lines) ps) of
        None \<Rightarrow> f | Some m \<Rightarrow> f\<lparr>date := group m 1\<rparr>)"
  by (induction ps) (auto split: option.splits)

lemma times_step_eq:
  "times_step lines f =
     Inr (case findall time_pattern False lines of
            [] \<Rightarrow> f
          | [t] \<Rightarrow> f\<lparr>start_time := Some t\<rparr>
          | t0 # t1 # _ \<Rightarrow> f\<lparr>start_time := Some t0, end_time := Some t1\<rparr>)"
  by (auto simp: times_step_def py_index_def Let_def split: list.splits)

lemma py_float_error: "py_float s = Inl e \<Longrightarrow> e = ValueError"
  by (auto simp: py_float_def Let_def split: if_splits)

lemma total_loop_eq:
  "\<forall>p\<in>set ps. has_group 1 p \<Longrightarrow>
   total_loop ps lines f =
     Inr (case first_some (map (\<lambda>p. accepted p lines) ps) of
            None \<Rightarrow> f | Some t \<Rightarrow> f\<lparr>total := Some t\<rparr>)"
proof (induction ps)
  case Nil
  show ?case by simp
next
  case (Cons p ps)
  show ?case
  proof (cases "search p True lines")
    case None
    then show ?thesis using Cons by (simp add: accepted_def)
  next
    case (Some m)
    have "has_group 1 p" using Cons.prems by simp
    from search_group[OF Some this] obtain s where s: "group m 1 = Some s" by auto
    show ?thesis
    proof (cases "py_float (filter (\<lambda>c. c \<noteq> CHR '','') s)")
      case (Inl e)
      then have "e = ValueError" by (rule py_float_error)
      then show ?thesis using Some s Inl Cons by (simp add: accepted_def replace_commas_def)
    next
      case (Inr x)
      then show ?thesis using Some s by (simp add: accepted_def replace_commas_def)
    qed
  qed
qed

lemma numeric_prices_error: "numeric_prices ps = Inl e \<Longrightarrow> e = ValueError"
  by (induction ps) (auto split: sum.splits if_splits dest: py_float_error)

lemma fallback_step_eq:
  "fallback_step lines f =
     Inr (if falsy (total f)
          then (case fallback_total lines of None \<Rightarrow> f | Some t \<Rightarrow> f\<lparr>total := Some t\<rparr>)
          else f)"
proof (cases "numeric_prices (findall price_pattern False lines)")
  case (Inl e)
  then have "e = ValueError" by (rule numeric_prices_error)
  then show ?thesis using Inl
    by (auto simp: fallback_step_def fallback_body_def fallback_total_def Let_def)
next
  case (Inr nps)
  then show ?thesis
    by (cases nps; cases "findall price_pattern False lines")
       (auto simp: fallback_step_def fallback_body_def fallback_total_def Let_def)
qed

lemma accepted_nonempty: "accepted p lines = Some t \<Longrightarrow> t \<noteq> []"
  by (auto simp: accepted_def Let_def py_float_def split: option.splits sum.splits if_splits)

lemma first_some_mem: "first_some xs = Some x \<Longrightarrow> Some x \<in> set xs"
  by (induction xs rule: first_some.induct) auto

lemma total_patterns_group: "\<forall>p\<in>set total_patterns. has_group 1 p"
  by (simp add: total_patterns_def amount_def lit_def)

lemma parse_fields_eq:
  "parse_fields lines =
     Inr \<lparr>date = date_of lines, start_time = fst (times_of lines),
          end_time = snd (times_of lines), total = total_of lines\<rparr>"
proof -
  have t: "t \<noteq> []" if "first_some (map (\<lambda>p. accepted p lines) total_patterns) = Some t" for t
  proof -
    from first_some_mem[OF that] obtain p where "accepted p lines = Some t" by auto
    then show ?thesis by (rule accepted_nonempty)
  qed
  show ?thesis
    unfolding parse_fields_def Let_def times_step_eq date_loop_eq
    by (simp add: total_loop_eq[OF total_patterns_group] fallback_step_eq range_step_def
          date_of_def times_of_def total_of_def falsy_def t
        split: option.splits list.splits)
qed

lemma first_some_index:
  "first_some (map f xs) = Some t \<longleftrightarrow>
     (\<exists>i<length xs. f (xs ! i) = Some t \<and> (\<forall>j<i. f (xs ! j) = None))"
proof (induction xs)
  case Nil
  show ?case by simp
next
  case (Cons x xs)
  show ?case
  proof (cases "f x")
    case None
    have "(\<exists>i<length (x # xs). f ((x # xs) ! i) = Some t \<and> (\<forall>j<i. f ((x # xs) ! j) = None))
          \<longleftrightarrow> (\<exists>i<length xs. f (xs ! i) = Some t \<and> (\<forall>j<i. f (xs ! j) = None))"
      (is "?L \<longleftrightarrow> ?R")
    proof
      assume ?L
      then obtain i where i: "i < length (x # xs)" "f ((x # xs) ! i) = Some t"
        "\<forall>j<i. f ((x # xs) ! j) = None" by blast
      with None obtain k where k: "i = Suc k" by (cases i) auto
      have "\<forall>j<k. f (xs ! j) = None"
      proof (intro allI impI)
        fix j assume "j < k"
        then have "Suc j < i" using k by simp
        with i(3) have "f ((x # xs) ! Suc j) = None" by blast
        then show "f (xs ! j) = None" by simp
      qed
      with i k show ?R by auto
    next
      assume ?R
      then obtain i where i: "i < length xs" "f (xs ! i) = Some t" "\<forall>j<i. f (xs ! j) = None"
        by blast
      have "\<forall>j<Suc i. f ((x # xs) ! j) = None"
      proof (intro allI impI)
        fix j assume "j < Suc i"
        then show "f ((x # xs) ! j) = None" using None i(3) by (cases j) auto
      qed
      with i show ?L by (intro exI[of _ "Suc i"]) auto
    qed
    with None Cons show ?thesis by simp
  next
    case (Some y)
    have "(\<exists>i<length (x # xs). f ((x # xs) ! i) = Some t \<and> (\<forall>j<i. f ((x # xs) ! j) = None))
          \<longleftrightarrow> y = t"
    proof
      assume "\<exists>i<length (x # xs). f ((x # xs) ! i) = Some t \<and> (\<forall>j<i. f ((x # xs) ! j) = None)"
      then obtain i where i: "f ((x # xs) ! i) = Some t" "\<forall>j<i. f ((x # xs) ! j) = None" by blast
      have "i = 0"
      proof (rule ccontr)
        assume "i \<noteq> 0"
        then have "f ((x # xs) ! 0) = None" using i(2) by blast
        with Some show False by simp
      qed
      with i Some show "y = t" by simp
    next
      assume "y = t"
      with Some show "\<exists>i<length (x # xs). f ((x # xs) ! i) = Some t \<and> (\<forall>j<i. f ((x # xs) ! j) = None)"
        by (intro exI[of _ 0]) simp
    qed
    with Some show ?thesis by simp
  qed
qed

lemma first_some_None: "first_some (map f xs) = None \<longleftrightarrow> (\<forall>x\<in>set xs. f x = None)"
  by (induction xs) (auto split: option.splits, (metis first_some.simps(2,3) not_None_eq)+)


lemma run_bounded_group:
  assumes "(p', cs', g') \<in> set (run (seq [Boundary, Group 1 r, Boundary]) ic (p, cs, g))"
  shows "map_of g' 1 = Some (take (length cs - length cs') cs)"
  using assms by (auto split: if_splits)

lemma date_patterns_shape:
  "i < length date_patterns \<Longrightarrow> \<exists>r. date_patterns ! i = seq [Boundary, Group 1 r, Boundary]"
  by (auto simp: date_patterns_def less_Suc_eq numeral_eq_Suc)

lemma search_bounded_group:
  assumes "search (seq [Boundary, Group 1 r, Boundary]) ic s = Some m"
  shows "group m 1 = group m 0" "\<exists>n. group m 0 = Some (take n (drop (m_start m) s))"
proof -
  let ?r = "seq [Boundary, Group 1 r, Boundary]"
  from search_Some[OF assms] obtain p' cs' g alts where
    r: "run_at ?r ic s (m_start m) = (p', cs', g) # alts" and
    m: "snd m = (0, take (length s - m_start m - length cs') (drop (m_start m) s)) # g"
    by blast
  have "(p', cs', g) \<in> set (run ?r ic (prev_char s (m_start m), drop (m_start m) s, []))"
    using r by (simp add: run_at_def)
  from run_bounded_group[OF this]
  have "map_of g 1 = Some (take (length s - m_start m - length cs') (drop (m_start m) s))"
    by simp
  with m show "group m 1 = group m 0" by (simp add: group_def)
  from m show "\<exists>n. group m 0 = Some (take n (drop (m_start m) s))" by (auto simp: group_def)
qed

subsection \<open>The order of floats and \<open>max\<close>\<close>

lemma float_lt_common:
  assumes "e0 \<le> e1" "e0 \<le> e2"
  shows "float_lt (Finite m1 e1) (Finite m2 e2) \<longleftrightarrow>
           m1 * 2 ^ nat (e1 - e0) < m2 * 2 ^ nat (e2 - e0)"
proof -
  let ?e = "min e1 e2"
  have e: "e0 \<le> ?e" using assms by simp
  have p1: "(2::int) ^ nat (e1 - e0) = 2 ^ nat (e1 - ?e) * 2 ^ nat (?e - e0)"
    using assms e by (simp add: power_add[symmetric] nat_add_distrib[symmetric])
  have p2: "(2::int) ^ nat (e2 - e0) = 2 ^ nat (e2 - ?e) * 2 ^ nat (?e - e0)"
    using assms e by (simp add: power_add[symmetric] nat_add_distrib[symmetric])
  have pos: "(0::int) < 2 ^ nat (?e - e0)" by simp
  have "m1 * 2 ^ nat (e1 - e0) < m2 * 2 ^ nat (e2 - e0) \<longleftrightarrow>
        (m1 * 2 ^ nat (e1 - ?e)) * 2 ^ nat (?e - e0) < (m2 * 2 ^ nat (e2 - ?e)) * 2 ^ nat (?e - e0)"
    by (simp only: p1 p2 mult.assoc)
  also have "\<dots> \<longleftrightarrow> m1 * 2 ^ nat (e1 - ?e) < m2 * 2 ^ nat (e2 - ?e)"
    using pos by (rule mult_less_cancel_right_pos)
  finally show ?thesis by (simp add: Let_def)
qed

lemma float_lt_irrefl: "\<not> float_lt x x"
  by (cases x) (simp_all add: Let_def)

lemma float_lt_trans: "float_lt x y \<Longrightarrow> float_lt y z \<Longrightarrow> float_lt x z"
proof (cases x; cases y; cases z)
  fix m1 e1 m2 e2 m3 e3
  assume x: "x = Finite m1 e1" and y: "y = Finite m2 e2" and z: "z = Finite m3 e3"
  assume a: "float_lt x y" and b: "float_lt y z"
  let ?e = "min e1 (min e2 e3)"
  have "m1 * 2 ^ nat (e1 - ?e) < m2 * 2 ^ nat (e2 - ?e)"
    using a x y float_lt_common[of ?e e1 e2 m1 m2] by simp
  moreover have "m2 * 2 ^ nat (e2 - ?e) < m3 * 2 ^ nat (e3 - ?e)"
    using b y z float_lt_common[of ?e e2 e3 m2 m3] by simp
  ultimately have "m1 * 2 ^ nat (e1 - ?e) < m3 * 2 ^ nat (e3 - ?e)" by (rule less_trans)
  then show "float_lt x z" using x z float_lt_common[of ?e e1 e3 m1 m3] by simp
qed simp_all

lemma foldl_max_spec:
  "foldl (\<lambda>m y. if float_lt m y then y else m) x xs \<in> set (x # xs) \<and>
   (\<forall>y\<in>set (x # xs). \<not> float_lt (foldl (\<lambda>m y. if float_lt m y then y else m) x xs) y)"
proof (induction xs arbitrary: x rule: rev_induct)
  case Nil
  show ?case by (simp add: float_lt_irrefl)
next
  case (snoc a xs)
  let ?m = "foldl (\<lambda>m y. if float_lt m y then y else m) x xs"
  from snoc[of x] have m: "?m \<in> set (x # xs)" "\<forall>y\<in>set (x # xs). \<not> float_lt ?m y" by auto
  show ?case
  proof (cases "float_lt ?m a")
    case True
    have "\<not> float_lt a y" if "y \<in> set (x # xs)" for y
    proof
      assume "float_lt a y"
      with True have "float_lt ?m y" by (rule float_lt_trans)
      with m(2) that show False by blast
    qed
    with True show ?thesis by (auto simp: float_lt_irrefl)
  next
    case False
    with m show ?thesis by auto
  qed
qed

lemma py_max_spec:
  assumes "xs \<noteq> []"
  shows "\<exists>x. py_max xs = Inr x \<and> x \<in> set xs \<and> (\<forall>y\<in>set xs. \<not> float_lt x y)"
proof -
  from assms obtain a as where xs: "xs = a # as" by (cases xs) auto
  show ?thesis unfolding xs using foldl_max_spec[of a as] by simp
qed

subsection \<open>What the matcher consumes\<close>

lemma rep_run_elem:
  "st' \<in> set (rep_run ic as lo hi st) \<Longrightarrow>
     \<exists>pre. fst (snd st) = pre @ fst (snd st') \<and> list_all (set_matches ic as) pre
        \<and> lo \<le> length pre \<and> (\<forall>h. hi = Some h \<longrightarrow> length pre \<le> h)
        \<and> snd (snd st') = snd (snd st)"
proof (induction ic as lo hi st rule: rep_run.induct)
  case (1 ic as lo hi p g)
  then show ?case by (auto split: if_splits)
next
  case (2 ic as lo hi p c cs g)
  from "2.prems" consider
    (more) "hi \<noteq> Some 0" "set_matches ic as c"
      "st' \<in> set (rep_run ic as (lo - 1) (map_option (\<lambda>h. h - 1) hi) (Some c, cs, g))"
    | (stop) "lo = 0" "st' = (p, c # cs, g)"
    by (auto split: if_splits)
  then show ?case
  proof cases
    case more
    from "2.IH"[OF _ more(3)] more(1,2) obtain pre where
      pre: "cs = pre @ fst (snd st')" "list_all (set_matches ic as) pre" "lo - 1 \<le> length pre"
        "\<forall>h. map_option (\<lambda>h. h - 1) hi = Some h \<longrightarrow> length pre \<le> h" "snd (snd st') = g"
      by auto
    have "\<forall>h. hi = Some h \<longrightarrow> length (c # pre) \<le> h"
    proof (intro allI impI)
      fix h assume h: "hi = Some h"
      with more(1) have "0 < h" by simp
      moreover from h pre(4) have "length pre \<le> h - 1" by simp
      ultimately show "length (c # pre) \<le> h" by simp
    qed
    with pre more(2) show ?thesis by (intro exI[of _ "c # pre"]) auto
  next
    case stop
    then show ?thesis by (intro exI[of _ "[]"]) auto
  qed
qed

lemma run_Cat_elem:
  "st' \<in> set (run (Cat r1 r2) ic st) \<longleftrightarrow> (\<exists>mid\<in>set (run r1 ic st). st' \<in> set (run r2 ic mid))"
  by auto

lemma run_Boundary_elem: "st' \<in> set (run Boundary ic st) \<Longrightarrow> st' = st"
  by (cases st) (auto split: if_splits)

lemma run_Group_elem:
  "st' \<in> set (run (Group n r) ic st) \<Longrightarrow>
     \<exists>g0. (fst st', fst (snd st'), g0) \<in> set (run r ic st)
        \<and> snd (snd st') = (n, take (length (fst (snd st)) - length (fst (snd st'))) (fst (snd st))) # g0"
  by (cases st) auto

lemma set_matches_digit: "set_matches ic [Digit] c = is_digit c"
  by (simp add: set_matches_def)

lemma set_matches_dot: "set_matches False [Lit (CHR ''.'')] c = (c = CHR ''.'')"
  by (simp add: set_matches_def)

lemma run_price_pattern:
  assumes "st' \<in> set (run price_pattern False st)"
  shows "price_token (group1 (snd (snd st')))"
proof -
  let ?d1 = "Rep 1 None [Digit]" and ?dot = "Rep 0 (Some 1) [Lit (CHR ''.'')]"
    and ?d2 = "Rep 0 (Some 2) [Digit]"
  have pp: "price_pattern = Cat Boundary (Cat (Group 1 (Cat ?d1 (Cat ?dot ?d2))) Boundary)"
    by (simp add: price_pattern_def digits_def)
  from assms[unfolded pp run_Cat_elem] obtain st1 st2 where
    b1: "st1 \<in> set (run Boundary False st)" and
    gr: "st2 \<in> set (run (Group 1 (Cat ?d1 (Cat ?dot ?d2))) False st1)" and
    b2: "st' \<in> set (run Boundary False st2)"
    by blast
  from b1 have st1: "st1 = st" by (rule run_Boundary_elem)
  from b2 have st2: "st' = st2" by (rule run_Boundary_elem)
  from run_Group_elem[OF gr] st1 st2 obtain g0 where
    body: "(fst st', fst (snd st'), g0) \<in> set (run (Cat ?d1 (Cat ?dot ?d2)) False st)" and
    g': "snd (snd st') = (1, take (length (fst (snd st)) - length (fst (snd st'))) (fst (snd st))) # g0"
    by auto
  from body[unfolded run_Cat_elem] obtain sa sb where
    r1: "sa \<in> set (rep_run False [Digit] 1 None st)" and
    r2: "sb \<in> set (rep_run False [Lit (CHR ''.'')] 0 (Some 1) sa)" and
    r3: "(fst st', fst (snd st'), g0) \<in> set (rep_run False [Digit] 0 (Some 2) sb)"
    by auto
  from rep_run_elem[OF r1] obtain ds where
    ds: "fst (snd st) = ds @ fst (snd sa)" "list_all is_digit ds" "1 \<le> length ds"
    by (auto simp: set_matches_digit[abs_def])
  from rep_run_elem[OF r2] obtain dot where
    dot: "fst (snd sa) = dot @ fst (snd sb)" "list_all (\<lambda>c. c = CHR ''.'') dot" "length dot \<le> 1"
    by (auto simp: set_matches_dot[abs_def])
  from rep_run_elem[OF r3] obtain fs where
    fs: "fst (snd sb) = fs @ fst (snd st')" "list_all is_digit fs" "length fs \<le> 2"
    by (auto simp: set_matches_digit[abs_def])
  have "dot = [] \<or> dot = ''.''" using dot(2,3) by (cases dot) auto
  moreover have "take (length (fst (snd st)) - length (fst (snd st'))) (fst (snd st)) = ds @ dot @ fs"
    using ds(1) dot(1) fs(1) by simp
  moreover have "ds \<noteq> []" using ds(3) by auto
  ultimately show ?thesis using ds(2) fs(2,3) g'
    unfolding price_token_def group1_def by auto
qed

lemma findall_from_elem:
  "t \<in> set (findall_from r ic skip p cs) \<Longrightarrow>
     \<exists>p0 cs0 p' cs' g'. (p', cs', g') \<in> set (run r ic (p0, cs0, [])) \<and> t = group1 g'"
proof (induction r ic skip p cs rule: findall_from.induct)
  case (1 r ic skip p)
  then show ?case
    by (auto split: if_splits list.splits) (metis list.set_intros(1))
next
  case (2 r ic skip p c cs)
  show ?case
  proof (cases "0 < skip")
    case True
    with 2 show ?thesis by simp
  next
    case False
    show ?thesis
    proof (cases "run r ic (p, c # cs, [])")
      case Nil
      with False 2 show ?thesis by simp
    next
      case (Cons st alts)
      obtain p1 cs1 g1 where st: "st = (p1, cs1, g1)" by (cases st) auto
      have here: "(p1, cs1, g1) \<in> set (run r ic (p, c # cs, []))" using Cons st by simp
      show ?thesis
      proof (cases "length cs1 < length (c # cs)")
        case True
        with False Cons st "2.prems" have
          "t = group1 g1 \<or> t \<in> set (findall_from r ic (length cs - length cs1) (Some c) cs)"
          by auto
        then show ?thesis
        proof
          assume "t = group1 g1" with here show ?thesis by blast
        next
          assume "t \<in> set (findall_from r ic (length cs - length cs1) (Some c) cs)"
          with "2.IH"(3)[OF _ Cons _ _ True] False st show ?thesis by auto
        qed
      next
        case nonadv: False
        show ?thesis
        proof (cases "filter (\<lambda>(p2, cs2, g2). length cs2 < length (c # cs)) alts")
          case Nil
          with False Cons st nonadv "2.prems" have
            "t = group1 g1 \<or> t \<in> set (findall_from r ic 0 (Some c) cs)" by auto
          then show ?thesis
          proof
            assume "t = group1 g1" with here show ?thesis by blast
          next
            assume "t \<in> set (findall_from r ic 0 (Some c) cs)"
            with "2.IH"(4)[OF _ Cons _ _ nonadv Nil] False st show ?thesis by auto
          qed
        next
          case (Cons st2 alts2)
          obtain p2 cs2 g2 where st2: "st2 = (p2, cs2, g2)" by (cases st2) auto
          have "st2 \<in> set (filter (\<lambda>(p2, cs2, g2). length cs2 < length (c # cs)) alts)"
            using Cons by simp
          then have in2: "(p2, cs2, g2) \<in> set (run r ic (p, c # cs, []))"
            using st2 \<open>run r ic (p, c # cs, []) = st # alts\<close> by auto
          from False \<open>run r ic (p, c # cs, []) = st # alts\<close> st nonadv Cons st2 "2.prems" have
            "t = group1 g1 \<or> t = group1 g2
             \<or> t \<in> set (findall_from r ic (length cs - length cs2) (Some c) cs)" by auto
          then consider "t = group1 g1" | "t = group1 g2"
            | "t \<in> set (findall_from r ic (length cs - length cs2) (Some c) cs)" by blast
          then show ?thesis
          proof cases
            case 1 with here show ?thesis by blast
          next
            case 2 with in2 show ?thesis by blast
          next
            case 3
            with "2.IH"(5)[OF _ \<open>run r ic (p, c # cs, []) = st # alts\<close> _ _ nonadv Cons] False st st2
            show ?thesis by auto
          qed
        qed
      qed
    qed
  qed
qed

lemma findall_price_token:
  "t \<in> set (findall price_pattern False lines) \<Longrightarrow> price_token t"
proof -
  assume "t \<in> set (findall price_pattern False lines)"
  then obtain p0 cs0 p' cs' g' where
    "(p', cs', g') \<in> set (run price_pattern False (p0, cs0, []))" "t = group1 g'"
    unfolding findall_def using findall_from_elem by blast
  then show ?thesis using run_price_pattern by fastforce
qed

section \<open>Properties of the parser\<close>

text \<open>
  Claim C7, as the code has it. The four date patterns are tried in the order of
  \<open>date_patterns\<close> (day-or-month first with a four-digit year last; year first; day,
  word, year; word, day, optional comma, year). The word of the third and the fourth
  pattern is any run of word characters (\<open>\w+\<close>), where the claim has a month name. The
  date is absent when no pattern is found anywhere in the text. Otherwise the first
  pattern that is found anywhere decides, whatever later patterns would find: the date
  is the text of its match at the leftmost position where it matches, taken as it
  stands (nothing checks that it is a calendar date).
\<close>

theorem date_cascade_priority:
  "\<exists>f. parse_fields lines = Inr f \<and>
     ((\<forall>p\<in>set date_patterns. search p True lines = None) \<longrightarrow> date f = None) \<and>
     (\<forall>i m. i < length date_patterns \<and> search (date_patterns ! i) True lines = Some m \<and>
            (\<forall>j<i. search (date_patterns ! j) True lines = None) \<longrightarrow>
            (\<exists>n. date f = Some (take n (drop (m_start m) lines))) \<and>
            date f = group m 0 \<and>
            m_start m \<le> length lines \<and>
            matches_at (date_patterns ! i) True lines (m_start m) \<and>
            (\<forall>k<m_start m. \<not> matches_at (date_patterns ! i) True lines k))"
proof -
  let ?f = "\<lparr>date = date_of lines, start_time = fst (times_of lines),
             end_time = snd (times_of lines), total = total_of lines\<rparr>"
  have 1: "parse_fields lines = Inr ?f" by (rule parse_fields_eq)
  have 2: "date ?f = None" if "\<forall>p\<in>set date_patterns. search p True lines = None"
    using that by (simp add: date_of_def first_some_None[THEN iffD2])
  have 3: "(\<exists>n. date ?f = Some (take n (drop (m_start m) lines))) \<and>
            date ?f = group m 0 \<and>
            m_start m \<le> length lines \<and>
            matches_at (date_patterns ! i) True lines (m_start m) \<and>
            (\<forall>k<m_start m. \<not> matches_at (date_patterns ! i) True lines k)"
    if a: "i < length date_patterns" "search (date_patterns ! i) True lines = Some m"
      "\<forall>j<i. search (date_patterns ! j) True lines = None" for i m
  proof -
    have "first_some (map (\<lambda>p. search p True lines) date_patterns) = Some m"
      using a first_some_index[of "\<lambda>p. search p True lines" date_patterns m] by blast
    then have d: "date ?f = group m 1" by (simp add: date_of_def)
    from date_patterns_shape[OF a(1)] obtain r where
      r: "date_patterns ! i = seq [Boundary, Group 1 r, Boundary]" by blast
    from search_bounded_group[of r True lines m] a(2) r
    have g: "group m 1 = group m 0" "\<exists>n. group m 0 = Some (take n (drop (m_start m) lines))"
      by simp_all
    from search_Some[OF a(2)]
    have "m_start m \<le> length lines" "matches_at (date_patterns ! i) True lines (m_start m)"
      "\<forall>k<m_start m. \<not> matches_at (date_patterns ! i) True lines k"
      by (auto simp: matches_at_def)
    with d g show ?thesis by simp
  qed
  from 1 2 3 show ?thesis by blast
qed


text \<open>
  A text with both \<open>2024-09-24\<close> and \<open>24 September 2024\<close>: the first pattern finds
  nothing, the second finds \<open>2024-09-24\<close> at position 5, the third would find
  \<open>24 September 2024\<close>; the date is \<open>2024-09-24\<close>.
\<close>

theorem date_cascade_priority_witness:
  "search (date_patterns ! 0) True ''Date 2024-09-24, 24 September 2024'' = None
   \<and> search (date_patterns ! 1) True ''Date 2024-09-24, 24 September 2024''
       = Some (5, [(0, ''2024-09-24''), (1, ''2024-09-24'')])
   \<and> search (date_patterns ! 2) True ''Date 2024-09-24, 24 September 2024''
       = Some (17, [(0, ''24 September 2024''), (1, ''24 September 2024'')])
   \<and> (\<exists>f. parse_fields ''Date 2024-09-24, 24 September 2024'' = Inr f
          \<and> date f = Some ''2024-09-24'')"
proof -
  let ?ex = "''Date 2024-09-24, 24 September 2024''"
  let ?m = "(5, [(0, ''2024-09-24''), (1, ''2024-09-24'')]) :: match"
  have s0: "search (date_patterns ! 0) True ?ex = None" by code_simp
  have s1: "search (date_patterns ! 1) True ?ex = Some ?m" by code_simp
  have s2: "search (date_patterns ! 2) True ?ex
              = Some (17, [(0, ''24 September 2024''), (1, ''24 September 2024'')])" by code_simp
  have len: "(1::nat) < length date_patterns" by (simp add: date_patterns_def)
  have before: "\<forall>j<1. search (date_patterns ! j) True ?ex = None" using s0 by simp
  from date_cascade_priority[of ?ex] obtain f where
    f: "parse_fields ?ex = Inr f" and
    pr: "\<forall>i m. i < length date_patterns \<and> search (date_patterns ! i) True ?ex = Some m \<and>
            (\<forall>j<i. search (date_patterns ! j) True ?ex = None) \<longrightarrow>
            (\<exists>n. date f = Some (take n (drop (m_start m) ?ex))) \<and>
            date f = group m 0 \<and>
            m_start m \<le> length ?ex \<and>
            matches_at (date_patterns ! i) True ?ex (m_start m) \<and>
            (\<forall>k<m_start m. \<not> matches_at (date_patterns ! i) True ?ex k)"
    by blast
  from pr len s1 before have "date f = group ?m 0" by blast
  then have "date f = Some ''2024-09-24''" by (simp add: group_def)
  with f s0 s1 s2 show ?thesis by blast
qed

lemma date_no_calendar_validation:
  "parse_fields ''due 99/99/9999'' =
     Inr \<lparr>date = Some ''99/99/9999'', start_time = None, end_time = None, total = Some ''9999.0''\<rparr>"
  by code_simp

text \<open>
  Claim C7 as stated has a month name between day and year. In the text below the only
  date with a month name is \<open>March 5, 2024\<close>, which the cascade of the claim returns
  (by its fourth pattern; its third finds nothing). The code returns \<open>3 items 2024\<close>:
  its third pattern takes the word \<open>items\<close> for the month.
\<close>

theorem date_cascade_counterexample:
  "date_claimed ''3 items 2024 on March 5, 2024'' = Some ''March 5, 2024''
   \<and> parse_fields ''3 items 2024 on March 5, 2024'' =
       Inr \<lparr>date = Some ''3 items 2024'', start_time = None, end_time = None,
            total = Some ''2024.0''\<rparr>
   \<and> ''3 items 2024'' \<noteq> ''March 5, 2024''"
  by code_simp

text \<open>The cascade of the claim and the code agree on the example of the claim.\<close>

lemma date_claimed_example:
  "date_claimed ''Date 2024-09-24, 24 September 2024'' = Some ''2024-09-24''
   \<and> date_of ''Date 2024-09-24, 24 September 2024'' = Some ''2024-09-24''"
  by code_simp

text \<open>
  Claim C1. For every text \<open>parse_fields\<close> returns a record of the four fields, each a
  string or absent, and raises nothing: the index reads are guarded by the length
  tests, every match of a total pattern has its group 1, \<open>float\<close> raises nothing but
  \<open>ValueError\<close>, and both \<open>try\<close> blocks catch it. Each field of the result is a
  function of the text alone (\<open>date_of\<close>, \<open>times_of\<close>, \<open>total_of\<close>): what the rules of
  one field find or fail to find has no effect on another field.
\<close>

theorem parse_fields_never_raises:
  "\<exists>f. parse_fields lines = Inr f \<and>
       date f = date_of lines \<and>
       start_time f = fst (times_of lines) \<and>
       end_time f = snd (times_of lines) \<and>
       total f = total_of lines"
proof -
  have "parse_fields lines =
     Inr \<lparr>date = date_of lines, start_time = fst (times_of lines),
          end_time = snd (times_of lines), total = total_of lines\<rparr>"
    by (rule parse_fields_eq)
  then show ?thesis by simp
qed

text \<open>The empty text, and a text of fragments that fit no rule but the fallback.\<close>

theorem parse_fields_never_raises_witness:
  "parse_fields '''' = Inr \<lparr>date = None, start_time = None, end_time = None, total = None\<rparr>
   \<and> parse_fields ''TOTAL: , 12:5 //--'' =
         Inr \<lparr>date = None, start_time = None, end_time = None, total = Some ''12.0''\<rparr>"
proof -
  have a1: "date_of '''' = None" by code_simp
  have a2: "times_of '''' = (None, None)" by code_simp
  have a3: "total_of '''' = None" by code_simp
  have b1: "date_of ''TOTAL: , 12:5 //--'' = None" by code_simp
  have b2: "times_of ''TOTAL: , 12:5 //--'' = (None, None)" by code_simp
  have b3: "total_of ''TOTAL: , 12:5 //--'' = Some ''12.0''" by code_simp
  note a = a1 a2 a3
  note b = b1 b2 b3
  from parse_fields_never_raises[of "''''"] a
  have 1: "parse_fields '''' = Inr \<lparr>date = None, start_time = None, end_time = None, total = None\<rparr>"
    by auto
  from parse_fields_never_raises[of "''TOTAL: , 12:5 //--''"] b
  have 2: "parse_fields ''TOTAL: , 12:5 //--'' =
         Inr \<lparr>date = None, start_time = None, end_time = None, total = Some ''12.0''\<rparr>"
    by auto
  from 1 2 show ?thesis by simp
qed

text \<open>
  The times as the code extracts them. When the range pattern of the source (two times
  joined by blanks and a run of the characters \<open>-\<close>, \<open>t\<close>, \<open>o\<close>, searched without regard
  to case) is found, its two groups are the start and the end time, whatever the generic
  pairing gave. When it is not found, the matches of the time pattern decide: of two or
  more, the first is the start and the second the end time, the others are dropped; a
  single match is the start time and the end time stays absent; without a match both
  stay absent.
\<close>

lemma time_extraction:
  "\<exists>f. parse_fields lines = Inr f \<and>
     (\<forall>m. search time_range_pattern True lines = Some m \<longrightarrow>
          start_time f = group m 1 \<and> end_time f = group m 2 \<and>
          group m 1 \<noteq> None \<and> group m 2 \<noteq> None) \<and>
     (search time_range_pattern True lines = None \<longrightarrow>
        (\<forall>t0 t1 ts. findall time_pattern False lines = t0 # t1 # ts \<longrightarrow>
            start_time f = Some t0 \<and> end_time f = Some t1) \<and>
        (\<forall>t. findall time_pattern False lines = [t] \<longrightarrow>
            start_time f = Some t \<and> end_time f = None) \<and>
        (findall time_pattern False lines = [] \<longrightarrow>
            start_time f = None \<and> end_time f = None))"
proof -
  let ?f = "\<lparr>date = date_of lines, start_time = fst (times_of lines),
             end_time = snd (times_of lines), total = total_of lines\<rparr>"
  have 1: "parse_fields lines = Inr ?f" by (rule parse_fields_eq)
  have g: "has_group 1 time_range_pattern" "has_group 2 time_range_pattern"
    by (simp_all add: time_range_pattern_def)
  have 2: "start_time ?f = group m 1 \<and> end_time ?f = group m 2 \<and>
          group m 1 \<noteq> None \<and> group m 2 \<noteq> None"
    if "search time_range_pattern True lines = Some m" for m
    using that search_group[OF that g(1)] search_group[OF that g(2)] by (simp add: times_of_def)
  have 3: "(\<forall>t0 t1 ts. findall time_pattern False lines = t0 # t1 # ts \<longrightarrow>
            start_time ?f = Some t0 \<and> end_time ?f = Some t1) \<and>
        (\<forall>t. findall time_pattern False lines = [t] \<longrightarrow>
            start_time ?f = Some t \<and> end_time ?f = None) \<and>
        (findall time_pattern False lines = [] \<longrightarrow>
            start_time ?f = None \<and> end_time ?f = None)"
    if "search time_range_pattern True lines = None"
    using that by (simp add: times_of_def)
  show ?thesis
  proof (intro exI[of _ ?f] conjI)
    show "parse_fields lines = Inr ?f" by (rule 1)
    show "\<forall>m. search time_range_pattern True lines = Some m \<longrightarrow>
          start_time ?f = group m 1 \<and> end_time ?f = group m 2 \<and>
          group m 1 \<noteq> None \<and> group m 2 \<noteq> None"
      using 2 by blast
    show "search time_range_pattern True lines = None \<longrightarrow>
        (\<forall>t0 t1 ts. findall time_pattern False lines = t0 # t1 # ts \<longrightarrow>
            start_time ?f = Some t0 \<and> end_time ?f = Some t1) \<and>
        (\<forall>t. findall time_pattern False lines = [t] \<longrightarrow>
            start_time ?f = Some t \<and> end_time ?f = None) \<and>
        (findall time_pattern False lines = [] \<longrightarrow>
            start_time ?f = None \<and> end_time ?f = None)"
      using 3 by blast
  qed
qed


text \<open>
  The text of the specification (the range pattern is found), a text with three times
  and no range (a match of the time pattern takes the blanks that follow it), and a
  text with a single time.
\<close>

lemma time_extraction_examples:
  "search time_range_pattern True ''Opened 9:00 AM to 5:00 PM, last sale 9:15 AM''
     = Some (7, [(0, ''9:00 AM to 5:00 PM''), (2, ''5:00 PM''), (1, ''9:00 AM'')])
   \<and> findall time_pattern False ''Opened 9:00 AM to 5:00 PM, last sale 9:15 AM''
     = [''9:00 AM'', ''5:00 PM'', ''9:15 AM'']
   \<and> (\<exists>f. parse_fields ''Opened 9:00 AM to 5:00 PM, last sale 9:15 AM'' = Inr f
          \<and> start_time f = Some ''9:00 AM'' \<and> end_time f = Some ''5:00 PM'')
   \<and> search time_range_pattern True ''In 10:15 Out 11:40 Paid 11:42'' = None
   \<and> findall time_pattern False ''In 10:15 Out 11:40 Paid 11:42'' = [''10:15 '', ''11:40 '', ''11:42'']
   \<and> (\<exists>f. parse_fields ''In 10:15 Out 11:40 Paid 11:42'' = Inr f
          \<and> start_time f = Some ''10:15 '' \<and> end_time f = Some ''11:40 '')
   \<and> search time_range_pattern True ''Closed 7:45 pm'' = None
   \<and> findall time_pattern False ''Closed 7:45 pm'' = [''7:45 pm'']
   \<and> (\<exists>f. parse_fields ''Closed 7:45 pm'' = Inr f
          \<and> start_time f = Some ''7:45 pm'' \<and> end_time f = None)"
proof -
  let ?a = "''Opened 9:00 AM to 5:00 PM, last sale 9:15 AM''"
  let ?b = "''In 10:15 Out 11:40 Paid 11:42''"
  let ?c = "''Closed 7:45 pm''"
  let ?m = "(7, [(0, ''9:00 AM to 5:00 PM''), (2, ''5:00 PM''), (1, ''9:00 AM'')]) :: match"
  have a1: "search time_range_pattern True ?a = Some ?m" by code_simp
  have a2: "findall time_pattern False ?a = [''9:00 AM'', ''5:00 PM'', ''9:15 AM'']" by code_simp
  have b1: "search time_range_pattern True ?b = None" by code_simp
  have b2: "findall time_pattern False ?b = [''10:15 '', ''11:40 '', ''11:42'']" by code_simp
  have c1: "search time_range_pattern True ?c = None" by code_simp
  have c2: "findall time_pattern False ?c = [''7:45 pm'']" by code_simp
  have fa: "\<exists>f. parse_fields ?a = Inr f
          \<and> start_time f = Some ''9:00 AM'' \<and> end_time f = Some ''5:00 PM''"
    using time_extraction[of ?a] by (simp add: a1 group_def)
  have gb: "\<exists>f. parse_fields ?b = Inr f
          \<and> start_time f = Some ''10:15 '' \<and> end_time f = Some ''11:40 ''"
    using time_extraction[of ?b] by (simp add: b1 b2)
  have hc: "\<exists>f. parse_fields ?c = Inr f
          \<and> start_time f = Some ''7:45 pm'' \<and> end_time f = None"
    using time_extraction[of ?c] by (simp add: c1 c2)
  show ?thesis by (intro conjI a1 a2 fa b1 b2 gb c1 c2 hc)
qed

text \<open>
  Claim C6 has the explicit range as two times joined by a dash or the word \<open>to\<close>. The
  source writes the separator as the character class \<open>[-to]+\<close>, searched without regard
  to case, so any run of the characters \<open>-\<close>, \<open>t\<close>, \<open>o\<close>, \<open>T\<close>, \<open>O\<close> joins two times. The text
  below has no dash and no letter \<open>o\<close>, hence no range in the sense of the claim, and three
  matches of the time pattern: by the claim the first is the start and the second the
  end time. The code finds its range pattern at \<open>2:00 t 3:00\<close> and returns the second
  match as the start and the third as the end time.
\<close>

theorem time_range_separator_class:
  "filter (\<lambda>c. c \<in> set ''-oO'') ''1:00 x 2:00 t 3:00'' = []
   \<and> findall time_pattern False ''1:00 x 2:00 t 3:00'' = [''1:00 '', ''2:00 '', ''3:00'']
   \<and> search time_range_pattern True ''1:00 x 2:00 t 3:00''
       = Some (7, [(0, ''2:00 t 3:00''), (2, ''3:00''), (1, ''2:00 '')])
   \<and> parse_fields ''1:00 x 2:00 t 3:00'' =
       Inr \<lparr>date = None, start_time = Some ''2:00 '', end_time = Some ''3:00'',
            total = Some ''3.0''\<rparr>"
  by code_simp

text \<open>
  The same class takes \<open>Tot\<close> or a lone \<open>o\<close> for the separator; with a dash or the word
  \<open>to\<close> between the times the code does what the claim says.
\<close>

lemma time_range_separators:
  "map (\<lambda>t. map_option fst (search time_range_pattern True t))
       [''9:00 Tot 10:00'', ''9:00 o 10:00'', ''9:00 - 10:00'', ''9:00 to 10:00'',
        ''9:00 and 10:00'']
     = [Some 0, Some 0, Some 0, Some 0, None]"
  by code_simp

text \<open>
  Claim C5. The seven total patterns are tried in the order of \<open>total_patterns\<close>:
  \<open>AED\<close> before the amount, \<open>AED\<close> after the amount, \<open>TOTAL\<close> with \<open>AED\<close>, \<open>TOTAL\<close>, \<open>AMOUNT\<close>
  with \<open>AED\<close>, \<open>GRAND TOTAL\<close>, and the generic \<open>TOTAL\<close>, \<open>AMOUNT\<close> or \<open>SUM\<close>. A pattern
  contributes (\<open>accepted\<close>) when it is found and the text of its group 1, commas
  removed, is a number for \<open>float\<close>; a pattern that is found with a group that is no
  number contributes nothing, exactly as a pattern that is not found. The total is what
  the first contributing pattern contributes.
\<close>

theorem total_cascade_priority:
  "length total_patterns = 7 \<and>
   (\<exists>f. parse_fields lines = Inr f \<and>
     (\<forall>i t. i < length total_patterns \<and> accepted (total_patterns ! i) lines = Some t \<and>
            (\<forall>j<i. accepted (total_patterns ! j) lines = None) \<longrightarrow> total f = Some t))"
proof -
  let ?f = "\<lparr>date = date_of lines, start_time = fst (times_of lines),
             end_time = snd (times_of lines), total = total_of lines\<rparr>"
  have 1: "parse_fields lines = Inr ?f" by (rule parse_fields_eq)
  have 2: "total ?f = Some t"
    if a: "i < length total_patterns" "accepted (total_patterns ! i) lines = Some t"
      "\<forall>j<i. accepted (total_patterns ! j) lines = None" for i t
  proof -
    have "first_some (map (\<lambda>p. accepted p lines) total_patterns) = Some t"
      using a first_some_index[of "\<lambda>p. accepted p lines" total_patterns t] by blast
    then show ?thesis by (simp add: total_of_def)
  qed
  have 3: "length total_patterns = 7" by (simp add: total_patterns_def)
  show ?thesis
  proof (intro conjI exI[of _ ?f])
    show "length total_patterns = 7" by (rule 3)
    show "parse_fields lines = Inr ?f" by (rule 1)
    show "\<forall>i t. i < length total_patterns \<and> accepted (total_patterns ! i) lines = Some t \<and>
            (\<forall>j<i. accepted (total_patterns ! j) lines = None) \<longrightarrow> total ?f = Some t"
      using 2 by blast
  qed
qed


text \<open>
  \<open>TOTAL: AED 123.40\<close> after a line with the bare number 500 gives \<open>123.40\<close> (by the
  first pattern, \<open>AED\<close> before the amount). In \<open>AED , TOTAL: 5\<close> the first pattern is found
  with the group \<open>,\<close>, which is no number; the cascade goes on and the fourth pattern
  gives \<open>5\<close>.
\<close>

theorem total_cascade_priority_witness:
  "accepted (total_patterns ! 0) (''Items 500'' @ [CHR 0x0A] @ ''TOTAL: AED 123.40'') = Some ''123.40''
   \<and> (\<exists>f. parse_fields (''Items 500'' @ [CHR 0x0A] @ ''TOTAL: AED 123.40'') = Inr f
          \<and> total f = Some ''123.40'')
   \<and> search (total_patterns ! 0) True ''AED , TOTAL: 5'' = Some (0, [(0, ''AED ,''), (1, '','')])
   \<and> accepted (total_patterns ! 0) ''AED , TOTAL: 5'' = None
   \<and> accepted (total_patterns ! 1) ''AED , TOTAL: 5'' = None
   \<and> accepted (total_patterns ! 2) ''AED , TOTAL: 5'' = None
   \<and> accepted (total_patterns ! 3) ''AED , TOTAL: 5'' = Some ''5''
   \<and> (\<exists>f. parse_fields ''AED , TOTAL: 5'' = Inr f \<and> total f = Some ''5'')"
proof -
  let ?a = "''Items 500'' @ [CHR 0x0A] @ ''TOTAL: AED 123.40''"
  let ?b = "''AED , TOTAL: 5''"
  have a0: "accepted (total_patterns ! 0) ?a = Some ''123.40''" by code_simp
  have bs: "search (total_patterns ! 0) True ?b = Some (0, [(0, ''AED ,''), (1, '','')])"
    by code_simp
  have b0: "accepted (total_patterns ! 0) ?b = None" by code_simp
  have b1: "accepted (total_patterns ! 1) ?b = None" by code_simp
  have b2: "accepted (total_patterns ! 2) ?b = None" by code_simp
  have b3: "accepted (total_patterns ! 3) ?b = Some ''5''" by code_simp
  have len: "length total_patterns = 7" by (simp add: total_patterns_def)
  from total_cascade_priority[of ?a] obtain f where
    f: "parse_fields ?a = Inr f" and
    fr: "\<forall>i t. i < length total_patterns \<and> accepted (total_patterns ! i) ?a = Some t \<and>
            (\<forall>j<i. accepted (total_patterns ! j) ?a = None) \<longrightarrow> total f = Some t"
    by auto
  have "total f = Some ''123.40''"
    using fr[rule_format, of 0 "''123.40''"] a0 len by simp
  with f have ea: "\<exists>f. parse_fields ?a = Inr f \<and> total f = Some ''123.40''" by auto
  from total_cascade_priority[of ?b] obtain g where
    g: "parse_fields ?b = Inr g" and
    gr: "\<forall>i t. i < length total_patterns \<and> accepted (total_patterns ! i) ?b = Some t \<and>
            (\<forall>j<i. accepted (total_patterns ! j) ?b = None) \<longrightarrow> total g = Some t"
    by auto
  have before: "\<forall>j<3. accepted (total_patterns ! j) ?b = None"
  proof (intro allI impI)
    fix j :: nat assume "j < 3"
    then consider "j = 0" | "j = 1" | "j = 2" by linarith
    then show "accepted (total_patterns ! j) ?b = None"
      by cases (use b0 b1 b2 in simp_all)
  qed
  have "total g = Some ''5''"
    using gr[rule_format, of 3 "''5''"] b3 before len by simp
  with g have eb: "\<exists>f. parse_fields ?b = Inr f \<and> total f = Some ''5''" by auto
  show ?thesis by (intro conjI a0 ea bs b0 b1 b2 b3 eb)
qed

lemma dot_not_digit: "\<not> is_digit (CHR ''.'')"
  by (simp add: is_digit_def code_def)

lemma digits_no_dot: "list_all is_digit ds \<Longrightarrow> \<forall>c\<in>set ds. c \<noteq> CHR ''.''"
  using dot_not_digit by (auto simp: list_all_iff)

lemma price_token_float:
  assumes "price_token t"
  shows "\<exists>x. py_float t = Inr x"
proof -
  from assms obtain ds dot fs where
    t: "t = ds @ dot @ fs" "ds \<noteq> []" "list_all is_digit ds" "dot = [] \<or> dot = ''.''"
       "list_all is_digit fs"
    unfolding price_token_def by blast
  note nd = digits_no_dot[OF t(3)] digits_no_dot[OF t(5)]
  have all: "list_all is_digit (ds @ fs)" "ds @ fs \<noteq> []" using t by simp_all
  from t(4) show ?thesis
  proof
    assume d: "dot = []"
    have tw: "takeWhile (\<lambda>c. c \<noteq> CHR ''.'') t = ds @ fs"
      and dw: "dropWhile (\<lambda>c. c \<noteq> CHR ''.'') t = []"
      using t(1) d nd by auto
    have "list_all is_digit ((ds @ fs) @ drop 1 []) \<and> (ds @ fs) @ drop 1 [] \<noteq> []"
      using all by simp
    then show ?thesis unfolding py_float_def Let_def tw dw by simp
  next
    assume d: "dot = ''.''"
    have tw: "takeWhile (\<lambda>c. c \<noteq> CHR ''.'') t = ds"
      using t(1) d nd(1) by (simp add: takeWhile_append2)
    have dw: "dropWhile (\<lambda>c. c \<noteq> CHR ''.'') t = CHR ''.'' # fs"
      using t(1) d nd(1) by (simp add: dropWhile_append2)
    have "list_all is_digit (ds @ drop 1 (CHR ''.'' # fs)) \<and> ds @ drop 1 (CHR ''.'' # fs) \<noteq> []"
      using all by simp
    then show ?thesis unfolding py_float_def Let_def tw dw by simp
  qed
qed

lemma numeric_prices_eq:
  "\<forall>t\<in>set ts. \<exists>x. py_float t = Inr x \<Longrightarrow>
   numeric_prices ts =
     Inr (concat (map (\<lambda>t. case py_float t of
                        Inl e \<Rightarrow> []
                      | Inr x \<Rightarrow> if float_lt (Finite 0 0) x then [x] else []) ts))"
  by (induction ts) auto

lemma fallback_total_eq:
  "fallback_total lines =
     (case py_max (positive_prices lines) of Inl e \<Rightarrow> None | Inr x \<Rightarrow> Some (py_str x))"
proof -
  have "\<forall>t\<in>set (findall price_pattern False lines). \<exists>x. py_float t = Inr x"
    using findall_price_token price_token_float by blast
  from numeric_prices_eq[OF this] show ?thesis
    by (simp add: fallback_total_def positive_prices_def)
qed

text \<open>
  Claim C3, as the code has it. When no total pattern contributes, the matches of
  \<open>price_pattern\<close> (found from left to right without overlap, each between word
  boundaries) are all numbers for \<open>float\<close>; the total stays absent when none of them is
  greater than zero, and otherwise it is \<open>str(x)\<close> for a largest \<open>x\<close> among the positive
  floats: the text Python prints for the float, not the text of the match.
\<close>

theorem fallback_total_maximum:
  "(\<forall>p\<in>set total_patterns. accepted p lines = None) \<longrightarrow>
     (\<exists>f. parse_fields lines = Inr f \<and>
        (\<forall>t\<in>set (findall price_pattern False lines). price_token t \<and> (\<exists>x. py_float t = Inr x)) \<and>
        (positive_prices lines = [] \<longrightarrow> total f = None) \<and>
        (positive_prices lines \<noteq> [] \<longrightarrow>
           (\<exists>x\<in>set (positive_prices lines).
               (\<forall>y\<in>set (positive_prices lines). \<not> float_lt x y) \<and> total f = Some (py_str x))))"
proof
  assume none: "\<forall>p\<in>set total_patterns. accepted p lines = None"
  let ?f = "\<lparr>date = date_of lines, start_time = fst (times_of lines),
             end_time = snd (times_of lines), total = total_of lines\<rparr>"
  have 1: "parse_fields lines = Inr ?f" by (rule parse_fields_eq)
  have "first_some (map (\<lambda>p. accepted p lines) total_patterns) = None"
    using none by (simp add: first_some_None)
  then have tot: "total ?f = (case py_max (positive_prices lines) of
                               Inl e \<Rightarrow> None | Inr x \<Rightarrow> Some (py_str x))"
    by (simp add: total_of_def fallback_total_eq)
  have 2: "\<forall>t\<in>set (findall price_pattern False lines). price_token t \<and> (\<exists>x. py_float t = Inr x)"
    using findall_price_token price_token_float by blast
  have 3: "positive_prices lines = [] \<longrightarrow> total ?f = None"
    using tot by simp
  have 4: "positive_prices lines \<noteq> [] \<longrightarrow>
           (\<exists>x\<in>set (positive_prices lines).
               (\<forall>y\<in>set (positive_prices lines). \<not> float_lt x y) \<and> total ?f = Some (py_str x))"
  proof
    assume "positive_prices lines \<noteq> []"
    from py_max_spec[OF this] obtain x where
      x: "py_max (positive_prices lines) = Inr x" "x \<in> set (positive_prices lines)"
         "\<forall>y\<in>set (positive_prices lines). \<not> float_lt x y" by blast
    have "total ?f = Some (py_str x)" using tot x(1) by simp
    with x show "\<exists>x\<in>set (positive_prices lines).
               (\<forall>y\<in>set (positive_prices lines). \<not> float_lt x y) \<and> total ?f = Some (py_str x)"
      by blast
  qed
  show "\<exists>f. parse_fields lines = Inr f \<and>
        (\<forall>t\<in>set (findall price_pattern False lines). price_token t \<and> (\<exists>x. py_float t = Inr x)) \<and>
        (positive_prices lines = [] \<longrightarrow> total f = None) \<and>
        (positive_prices lines \<noteq> [] \<longrightarrow>
           (\<exists>x\<in>set (positive_prices lines).
               (\<forall>y\<in>set (positive_prices lines). \<not> float_lt x y) \<and> total f = Some (py_str x)))"
    by (intro exI[of _ ?f] conjI 1 2 3 4)
qed

text \<open>
  For \<open>4.50 3.25 1.00\<close> no total pattern contributes, the matches are \<open>4.50\<close>, \<open>3.25\<close>
  and \<open>1.00\<close>, and the total is \<open>4.5\<close>.
\<close>

theorem fallback_total_maximum_witness:
  "map (\<lambda>p. accepted p ''4.50 3.25 1.00'') total_patterns = replicate 7 None
   \<and> findall price_pattern False ''4.50 3.25 1.00'' = [''4.50'', ''3.25'', ''1.00'']
   \<and> positive_prices ''4.50 3.25 1.00'' =
        [Finite 5066549580791808 (- 50), Finite 7318349394477056 (- 51),
         Finite 4503599627370496 (- 52)]
   \<and> (\<exists>f. parse_fields ''4.50 3.25 1.00'' = Inr f \<and> total f = Some ''4.5'')"
proof -
  let ?ex = "''4.50 3.25 1.00''"
  let ?a = "Finite 5066549580791808 (- 50)" and ?b = "Finite 7318349394477056 (- 51)"
    and ?c = "Finite 4503599627370496 (- 52)"
  have none: "map (\<lambda>p. accepted p ?ex) total_patterns = replicate 7 None" by code_simp
  have toks: "findall price_pattern False ?ex = [''4.50'', ''3.25'', ''1.00'']" by code_simp
  have pos: "positive_prices ?ex = [?a, ?b, ?c]" by code_simp
  have lt: "float_lt ?b ?a" "float_lt ?c ?a" by code_simp+
  have str: "py_str ?a = ''4.5''" by code_simp
  have hyp: "\<forall>p\<in>set total_patterns. accepted p ?ex = None"
  proof
    fix p assume "p \<in> set total_patterns"
    then have "accepted p ?ex \<in> set (map (\<lambda>p. accepted p ?ex) total_patterns)" by simp
    then show "accepted p ?ex = None" unfolding none by simp
  qed
  from fallback_total_maximum[of ?ex, THEN mp, OF hyp] obtain f where
    f: "parse_fields ?ex = Inr f" and
    mx: "positive_prices ?ex \<noteq> [] \<longrightarrow>
           (\<exists>x\<in>set (positive_prices ?ex).
               (\<forall>y\<in>set (positive_prices ?ex). \<not> float_lt x y) \<and> total f = Some (py_str x))"
    by auto
  have ne: "[?a, ?b, ?c] \<noteq> []" by simp
  from mx[unfolded pos, THEN mp, OF ne] obtain x where
    x: "x \<in> set [?a, ?b, ?c]" "\<forall>y\<in>set [?a, ?b, ?c]. \<not> float_lt x y"
       "total f = Some (py_str x)" by blast
  have "?a \<in> set [?a, ?b, ?c]" by simp
  with x(2) have nlt: "\<not> float_lt x ?a" by blast
  from x(1) have "x = ?a \<or> x = ?b \<or> x = ?c" by simp
  with nlt lt have "x = ?a" by blast
  with x(3) str have "total f = Some ''4.5''" by (simp only:)
  with f have "\<exists>f. parse_fields ?ex = Inr f \<and> total f = Some ''4.5''" by auto
  then show ?thesis by (intro conjI none toks pos)
qed

text \<open>
  Claim C3 as stated gives \<open>4.50\<close> for this text; the code gives \<open>4.5\<close>, since
  \<open>str(max(numeric_prices))\<close> prints the float \<open>4.5\<close>.
\<close>

theorem fallback_total_counterexample:
  "parse_fields ''4.50 3.25 1.00'' =
     Inr \<lparr>date = None, start_time = None, end_time = None, total = Some ''4.5''\<rparr>
   \<and> ''4.5'' \<noteq> ''4.50''"
  by code_simp

section \<open>Properties of the sink\<close>

lemma stamp_rows_files: "files (stamp_rows rows w) = files w"
  by (induction rows arbitrary: w) (auto simp: datetime_now_isoformat_def Let_def)

lemma stamp_rows_iso: "now_iso (stamp_rows rows w) = now_iso w"
  by (induction rows arbitrary: w) (auto simp: datetime_now_isoformat_def Let_def)

lemma stamp_rows_calls: "now_calls w \<le> now_calls (stamp_rows rows w)"
proof (induction rows arbitrary: w)
  case Nil
  show ?case by simp
next
  case (Cons a rows)
  show ?case
  proof (cases "needs_stamp (heap w a)")
    case True
    let ?w1 = "w\<lparr>now_calls := Suc (now_calls w),
                 heap := (heap w)(a := (heap w a)(''processed_at'' \<mapsto> PyStr (now_iso w (now_calls w))))\<rparr>"
    have "now_calls ?w1 \<le> now_calls (stamp_rows rows ?w1)" by (rule Cons.IH)
    then show ?thesis using True by (simp add: datetime_now_isoformat_def)
  next
    case False
    then show ?thesis using Cons.IH[of w] by simp
  qed
qed

lemma stamp_rows_heap:
  "(\<forall>r. r \<notin> set rows \<longrightarrow> heap (stamp_rows rows w) r = heap w r) \<and>
   (\<forall>r. \<not> needs_stamp (heap w r) \<longrightarrow> heap (stamp_rows rows w) r = heap w r) \<and>
   (\<forall>r\<in>set rows. needs_stamp (heap w r) \<longrightarrow>
      (\<exists>t. now_calls w \<le> t \<and> t < now_calls (stamp_rows rows w) \<and>
           heap (stamp_rows rows w) r = (heap w r)(''processed_at'' \<mapsto> PyStr (now_iso w t))))"
proof (induction rows arbitrary: w)
  case Nil
  show ?case by simp
next
  case (Cons a rows)
  let ?w1 = "if needs_stamp (heap w a)
        then (let (ts, w') = datetime_now_isoformat w
              in w'\<lparr>heap := (heap w')(a := (heap w' a)(''processed_at'' \<mapsto> PyStr ts))\<rparr>)
        else w"
  have eq: "stamp_rows (a # rows) w = stamp_rows rows ?w1" by simp
  have iso1: "now_iso ?w1 = now_iso w" by (simp add: datetime_now_isoformat_def)
  have other: "heap ?w1 r = heap w r" if "r \<noteq> a" for r
    using that by (simp add: datetime_now_isoformat_def)
  have calls1: "now_calls w \<le> now_calls ?w1" by (simp add: datetime_now_isoformat_def)
  note IH = Cons.IH[of ?w1]
  have A: "heap (stamp_rows (a # rows) w) r = heap w r" if "r \<notin> set (a # rows)" for r
    using that IH[THEN conjunct1, rule_format, of r] other[of r] unfolding eq by simp
  have B: "heap (stamp_rows (a # rows) w) r = heap w r" if ns: "\<not> needs_stamp (heap w r)" for r
  proof -
    have "heap ?w1 r = heap w r" using ns other by (cases "r = a") simp_all
    with ns IH[THEN conjunct2, THEN conjunct1, rule_format, of r] show ?thesis unfolding eq by simp
  qed
  have C: "\<exists>t. now_calls w \<le> t \<and> t < now_calls (stamp_rows (a # rows) w) \<and>
           heap (stamp_rows (a # rows) w) r = (heap w r)(''processed_at'' \<mapsto> PyStr (now_iso w t))"
    if r: "r \<in> set (a # rows)" and ns: "needs_stamp (heap w r)" for r
  proof (cases "r = a")
    case False
    then have "r \<in> set rows" "heap ?w1 r = heap w r" using r other by auto
    with ns IH[THEN conjunct2, THEN conjunct2, rule_format, of r]
    obtain t where "now_calls ?w1 \<le> t" "t < now_calls (stamp_rows rows ?w1)"
      "heap (stamp_rows rows ?w1) r = (heap ?w1 r)(''processed_at'' \<mapsto> PyStr (now_iso ?w1 t))"
      by auto
    with calls1 iso1 \<open>heap ?w1 r = heap w r\<close> show ?thesis unfolding eq
      by (intro exI[of _ t]) simp
  next
    case True
    have h1: "heap ?w1 a = (heap w a)(''processed_at'' \<mapsto> PyStr (now_iso w (now_calls w)))"
      and c1: "now_calls ?w1 = Suc (now_calls w)"
      using ns True by (simp_all add: datetime_now_isoformat_def)
    have mono: "now_calls ?w1 \<le> now_calls (stamp_rows rows ?w1)"
      by (rule stamp_rows_calls)
    show ?thesis
    proof (cases "a \<in> set rows \<and> needs_stamp (heap ?w1 a)")
      case True
      with IH[THEN conjunct2, THEN conjunct2, rule_format, of a]
      obtain t where t: "now_calls ?w1 \<le> t" "t < now_calls (stamp_rows rows ?w1)"
        "heap (stamp_rows rows ?w1) a = (heap ?w1 a)(''processed_at'' \<mapsto> PyStr (now_iso ?w1 t))"
        by auto
      have "heap (stamp_rows rows ?w1) a = (heap w a)(''processed_at'' \<mapsto> PyStr (now_iso w t))"
        unfolding t(3) h1 iso1 by simp
      with t c1 \<open>r = a\<close> show ?thesis unfolding eq by (intro exI[of _ t]) simp
    next
      case False
      then have "heap (stamp_rows rows ?w1) a = heap ?w1 a"
        using IH[THEN conjunct1, rule_format, of a] IH[THEN conjunct2, THEN conjunct1, rule_format, of a]
        by blast
      with h1 c1 mono \<open>r = a\<close> show ?thesis unfolding eq
        by (intro exI[of _ "now_calls w"]) simp
    qed
  qed
  from A B C show ?case by blast
qed


lemma write_csv_heap: "heap (write_csv rows p w) = heap (stamp_rows rows w)"
  by (simp add: write_csv_def Let_def)

lemma write_csv_calls: "now_calls (write_csv rows p w) = now_calls (stamp_rows rows w)"
  by (simp add: write_csv_def Let_def)

lemma write_csv_iso: "now_iso (write_csv rows p w) = now_iso w"
  by (simp add: write_csv_def Let_def stamp_rows_iso)








text \<open>
  Claim C10. \<open>write_csv\<close> writes into the dictionaries it is given: a row whose
  \<open>processed_at\<close> is missing, \<open>None\<close> or empty comes back with \<open>processed_at\<close> set to a
  timestamp read from the clock during the call, and is otherwise as it was (no other
  key is added, removed or changed); every other dictionary of the heap, passed or
  not, is untouched.
\<close>

theorem write_csv_stamps_in_place:
  "(\<forall>r\<in>set rows. needs_stamp (heap w r) \<longrightarrow>
      (\<exists>t. now_calls w \<le> t \<and> t < now_calls (write_csv rows p w) \<and>
           heap (write_csv rows p w) r = (heap w r)(''processed_at'' \<mapsto> PyStr (now_iso w t)))) \<and>
   (\<forall>r. r \<notin> set rows \<or> \<not> needs_stamp (heap w r) \<longrightarrow> heap (write_csv rows p w) r = heap w r)"
proof (intro conjI ballI allI impI)
  fix r assume "r \<in> set rows" "needs_stamp (heap w r)"
  then show "\<exists>t. now_calls w \<le> t \<and> t < now_calls (write_csv rows p w) \<and>
           heap (write_csv rows p w) r = (heap w r)(''processed_at'' \<mapsto> PyStr (now_iso w t))"
    unfolding write_csv_heap write_csv_calls
    using stamp_rows_heap[of rows w, THEN conjunct2, THEN conjunct2] by blast
next
  fix r assume "r \<notin> set rows \<or> \<not> needs_stamp (heap w r)"
  then show "heap (write_csv rows p w) r = heap w r"
    unfolding write_csv_heap
    using stamp_rows_heap[of rows w, THEN conjunct1] stamp_rows_heap[of rows w, THEN conjunct2, THEN conjunct1]
    by blast
qed

text \<open>
  The two test rows: both are stamped, with the two timestamps the clock gives during
  the call; a dictionary that is not passed stays as it is.
\<close>

theorem write_csv_stamps_in_place_witness:
  "needs_stamp (heap test_world 0) \<and> needs_stamp (heap test_world 1)
   \<and> (\<exists>t<2. heap (write_csv [0, 1] ''out.csv'' test_world) 0 =
               (heap test_world 0)(''processed_at'' \<mapsto> PyStr (now_iso test_world t)))
   \<and> (\<exists>t<2. heap (write_csv [0, 1] ''out.csv'' test_world) 1 =
               (heap test_world 1)(''processed_at'' \<mapsto> PyStr (now_iso test_world t)))
   \<and> heap (write_csv [0, 1] ''out.csv'' test_world) 0 ''processed_at''
       = Some (PyStr ''2024-01-20T09:00:00.000001'')
   \<and> heap (write_csv [0, 1] ''out.csv'' test_world) 1 ''processed_at''
       = Some (PyStr ''2024-01-20T09:00:00.000002'')
   \<and> heap (write_csv [0, 1] ''out.csv'' test_world) 2 = heap test_world 2"
proof -
  let ?w' = "write_csv [0, 1] ''out.csv'' test_world"
  have n0: "needs_stamp (heap test_world 0)" by code_simp
  have n1: "needs_stamp (heap test_world 1)" by code_simp
  have calls: "now_calls ?w' = 2" by code_simp
  have v0: "heap ?w' 0 ''processed_at'' = Some (PyStr ''2024-01-20T09:00:00.000001'')" by code_simp
  have v1: "heap ?w' 1 ''processed_at'' = Some (PyStr ''2024-01-20T09:00:00.000002'')" by code_simp
  note th = write_csv_stamps_in_place[of "[0, 1]" test_world "''out.csv''"]
  from th[THEN conjunct1, rule_format, of 0] n0 calls
  have e0: "\<exists>t<2. heap ?w' 0 = (heap test_world 0)(''processed_at'' \<mapsto> PyStr (now_iso test_world t))"
    by auto
  from th[THEN conjunct1, rule_format, of 1] n1 calls
  have e1: "\<exists>t<2. heap ?w' 1 = (heap test_world 1)(''processed_at'' \<mapsto> PyStr (now_iso test_world t))"
    by auto
  from th[THEN conjunct2, rule_format, of 2]
  have u2: "heap ?w' 2 = heap test_world 2" by simp
  show ?thesis by (intro conjI n0 n1 e0 e1 v0 v1 u2)
qed



subsection \<open>Reading back what was written\<close>

lemma lines_keepends_nonempty: "cs \<noteq> [] \<Longrightarrow> lines_keepends cs \<noteq> []"
  by (cases cs) (auto split: list.splits)

lemma read_records_text:
  "t = [] \<or> last t = LF \<Longrightarrow> read_records r acc (lines_keepends t) = read_text r acc t"
proof (induction t arbitrary: r acc)
  case Nil
  show ?case by simp
next
  case (Cons c cs)
  have tail: "cs = [] \<or> last cs = LF" using Cons.prems by (cases cs) auto
  show ?case
  proof (cases "c = LF")
    case True
    show ?thesis
      using True Cons.IH[OF tail]
      by (simp split: sum.splits)
  next
    case False
    then have "cs \<noteq> []" using Cons.prems by auto
    then obtain l ls where l: "lines_keepends cs = l # ls"
      using lines_keepends_nonempty by (cases "lines_keepends cs") auto
    have "read_records r acc (lines_keepends (c # cs)) = read_records r acc ((c # l) # ls)"
      using False l by simp
    also have "\<dots> = (case parse_process_char r (Some c) of
                        Inl e \<Rightarrow> Inl e
                      | Inr r1 \<Rightarrow> read_records r1 acc (l # ls))"
      by (simp split: sum.splits)
    also have "\<dots> = read_text r acc (c # cs)"
      using False Cons.IH[OF tail] l by (simp split: sum.splits)
    finally show ?thesis .
  qed
qed


lemma chars_neq:
  "COMMA \<noteq> LF" "DQ \<noteq> LF" "CR \<noteq> LF" "DQ \<noteq> COMMA" "DQ \<noteq> CR" "COMMA \<noteq> CR"
  "LF \<noteq> COMMA" "LF \<noteq> DQ" "LF \<noteq> CR" "COMMA \<noteq> DQ" "CR \<noteq> DQ" "CR \<noteq> COMMA"
  by (simp_all add: COMMA_def LF_def DQ_def CR_def)

lemmas step_defs = parse_process_char_def start_field_def parse_add_char_def
  parse_save_field_def is_newline_def

lemma field_limit_pos: "0 < field_limit"
  by (simp add: field_limit_def)

lemma read_quoted_content:
  "int (length f) + int (length s) \<le> field_limit \<Longrightarrow>
   read_text \<lparr>r_state = IN_QUOTED_FIELD, r_fields = fs, r_field = f\<rparr> acc
       (concat (map (\<lambda>c. if c = DQ then [DQ, DQ] else [c]) s) @ rest) =
   read_text \<lparr>r_state = IN_QUOTED_FIELD, r_fields = fs, r_field = f @ s\<rparr> acc rest"
proof (induction s arbitrary: f)
  case Nil
  show ?case by simp
next
  case (Cons c s)
  have len: "int (length f) < field_limit" "int (length (f @ [c])) + int (length s) \<le> field_limit"
    using Cons.prems by simp_all
  note IH = Cons.IH[OF len(2)]
  show ?case
  proof (cases "c = DQ")
    case True
    then show ?thesis using IH len(1) by (simp add: step_defs chars_neq)
  next
    case False
    show ?thesis
    proof (cases "c = LF")
      case True
      then show ?thesis using IH len(1) by (simp add: step_defs chars_neq)
    next
      case F2: False
      then show ?thesis using False IH len(1) by (simp add: step_defs)
    qed
  qed
qed

lemma plain_iff: "plain s \<longleftrightarrow> \<not> needs_quotes s"
  by (auto simp: plain_def needs_quotes_def list_ex_iff)

lemma read_plain_content:
  "plain s \<Longrightarrow> int (length f) + int (length s) \<le> field_limit \<Longrightarrow>
   read_text \<lparr>r_state = IN_FIELD, r_fields = fs, r_field = f\<rparr> acc (s @ rest) =
   read_text \<lparr>r_state = IN_FIELD, r_fields = fs, r_field = f @ s\<rparr> acc rest"
proof (induction s arbitrary: f)
  case Nil
  show ?case by simp
next
  case (Cons c s)
  have len: "int (length f) < field_limit" "int (length (f @ [c])) + int (length s) \<le> field_limit"
    using Cons.prems by simp_all
  have c: "c \<noteq> COMMA" "c \<noteq> DQ" "c \<noteq> CR" "c \<noteq> LF" and p: "plain s"
    using Cons.prems(1) by (simp_all add: plain_def)
  from Cons.IH[OF p len(2)] c len(1) show ?case by (simp add: step_defs)
qed

lemma read_field_comma:
  assumes "readable v" "S = START_RECORD \<or> S = START_FIELD"
  shows "read_text \<lparr>r_state = S, r_fields = fs, r_field = []\<rparr> acc (csv_field v @ COMMA # rest) =
         read_text \<lparr>r_state = START_FIELD, r_fields = fs @ [text_of v], r_field = []\<rparr> acc rest"
proof -
  have empty: "read_text \<lparr>r_state = S, r_fields = fs, r_field = []\<rparr> acc (COMMA # rest) =
         read_text \<lparr>r_state = START_FIELD, r_fields = fs @ [[]], r_field = []\<rparr> acc rest"
    using assms(2) by (auto simp: step_defs chars_neq)
  show ?thesis
  proof (cases v)
    case PyNone
    then show ?thesis using empty by (simp add: csv_field_def text_of_def)
  next
    case (PyStr s)
    then have s: "CR \<notin> set s" "int (length s) \<le> field_limit"
      using assms(1) by (simp_all add: readable_def)
    show ?thesis
    proof (cases "needs_quotes s")
      case True
      have "read_text \<lparr>r_state = S, r_fields = fs, r_field = []\<rparr> acc (quoted s @ COMMA # rest) =
            read_text \<lparr>r_state = IN_QUOTED_FIELD, r_fields = fs, r_field = []\<rparr> acc
              (concat (map (\<lambda>c. if c = DQ then [DQ, DQ] else [c]) s) @ DQ # COMMA # rest)"
        using assms(2) by (auto simp: quoted_def step_defs chars_neq)
      also have "\<dots> = read_text \<lparr>r_state = IN_QUOTED_FIELD, r_fields = fs, r_field = [] @ s\<rparr> acc
              (DQ # COMMA # rest)"
        using s(2) by (intro read_quoted_content) simp
      also have "\<dots> = read_text \<lparr>r_state = START_FIELD, r_fields = fs @ [s], r_field = []\<rparr> acc rest"
        by (simp add: step_defs chars_neq)
      finally show ?thesis using PyStr True by (simp add: csv_field_def text_of_def)
    next
      case False
      then have pl: "plain s" by (simp add: plain_iff)
      show ?thesis
      proof (cases s)
        case Nil
        then show ?thesis using PyStr False empty by (simp add: csv_field_def text_of_def)
      next
        case (Cons c s')
        have c: "c \<noteq> COMMA" "c \<noteq> DQ" "c \<noteq> CR" "c \<noteq> LF" and p': "plain s'"
          using pl Cons by (simp_all add: plain_def)
        have "read_text \<lparr>r_state = S, r_fields = fs, r_field = []\<rparr> acc (s @ COMMA # rest) =
              read_text \<lparr>r_state = IN_FIELD, r_fields = fs, r_field = [c]\<rparr> acc (s' @ COMMA # rest)"
          using assms(2) c Cons field_limit_pos by (auto simp: step_defs)
        also have "\<dots> = read_text \<lparr>r_state = IN_FIELD, r_fields = fs, r_field = [c] @ s'\<rparr> acc
                            (COMMA # rest)"
          using s(2) Cons by (intro read_plain_content[OF p']) simp
        also have "\<dots> = read_text \<lparr>r_state = START_FIELD, r_fields = fs @ [s], r_field = []\<rparr> acc rest"
          using Cons by (simp add: step_defs chars_neq)
        finally show ?thesis using PyStr False by (simp add: csv_field_def text_of_def)
      qed
    qed
  qed
qed

lemma read_field_newline:
  assumes "readable v"
  shows "read_text \<lparr>r_state = START_FIELD, r_fields = fs, r_field = []\<rparr> acc (csv_field v @ LF # rest) =
         read_text parse_reset (acc @ [fs @ [text_of v]]) rest"
proof -
  have empty: "read_text \<lparr>r_state = START_FIELD, r_fields = fs, r_field = []\<rparr> acc (LF # rest) =
         read_text parse_reset (acc @ [fs @ [[]]]) rest"
    by (simp add: step_defs chars_neq)
  show ?thesis
  proof (cases v)
    case PyNone
    then show ?thesis using empty by (simp add: csv_field_def text_of_def)
  next
    case (PyStr s)
    then have s: "CR \<notin> set s" "int (length s) \<le> field_limit"
      using assms(1) by (simp_all add: readable_def)
    show ?thesis
    proof (cases "needs_quotes s")
      case True
      have "read_text \<lparr>r_state = START_FIELD, r_fields = fs, r_field = []\<rparr> acc (quoted s @ LF # rest) =
            read_text \<lparr>r_state = IN_QUOTED_FIELD, r_fields = fs, r_field = []\<rparr> acc
              (concat (map (\<lambda>c. if c = DQ then [DQ, DQ] else [c]) s) @ DQ # LF # rest)"
        by (simp add: quoted_def step_defs chars_neq)
      also have "\<dots> = read_text \<lparr>r_state = IN_QUOTED_FIELD, r_fields = fs, r_field = [] @ s\<rparr> acc
              (DQ # LF # rest)"
        using s(2) by (intro read_quoted_content) simp
      also have "\<dots> = read_text parse_reset (acc @ [fs @ [s]]) rest"
        by (simp add: step_defs chars_neq)
      finally show ?thesis using PyStr True by (simp add: csv_field_def text_of_def)
    next
      case False
      then have pl: "plain s" by (simp add: plain_iff)
      show ?thesis
      proof (cases s)
        case Nil
        then show ?thesis using PyStr False empty by (simp add: csv_field_def text_of_def)
      next
        case (Cons c s')
        have c: "c \<noteq> COMMA" "c \<noteq> DQ" "c \<noteq> CR" "c \<noteq> LF" and p': "plain s'"
          using pl Cons by (simp_all add: plain_def)
        have "read_text \<lparr>r_state = START_FIELD, r_fields = fs, r_field = []\<rparr> acc (s @ LF # rest) =
              read_text \<lparr>r_state = IN_FIELD, r_fields = fs, r_field = [c]\<rparr> acc (s' @ LF # rest)"
          using c Cons field_limit_pos by (simp add: step_defs)
        also have "\<dots> = read_text \<lparr>r_state = IN_FIELD, r_fields = fs, r_field = [c] @ s'\<rparr> acc
                            (LF # rest)"
          using s(2) Cons by (intro read_plain_content[OF p']) simp
        also have "\<dots> = read_text parse_reset (acc @ [fs @ [s]]) rest"
          using Cons by (simp add: step_defs chars_neq)
        finally show ?thesis using PyStr False by (simp add: csv_field_def text_of_def)
      qed
    qed
  qed
qed


lemma read_row_tail:
  "vs \<noteq> [] \<Longrightarrow> \<forall>v\<in>set vs. readable v \<Longrightarrow>
   read_text \<lparr>r_state = START_FIELD, r_fields = fs, r_field = []\<rparr> acc
       (join_fields (map csv_field vs) @ LF # rest) =
   read_text parse_reset (acc @ [fs @ map text_of vs]) rest"
proof (induction vs arbitrary: fs)
  case Nil
  then show ?case by simp
next
  case (Cons v vs)
  show ?case
  proof (cases vs)
    case Nil
    then show ?thesis using Cons.prems read_field_newline[of v fs acc rest] by simp
  next
    case (Cons v' vs')
    have "join_fields (map csv_field (v # vs)) @ LF # rest =
          csv_field v @ COMMA # (join_fields (map csv_field vs) @ LF # rest)"
      using Cons by simp
    then have "read_text \<lparr>r_state = START_FIELD, r_fields = fs, r_field = []\<rparr> acc
                 (join_fields (map csv_field (v # vs)) @ LF # rest) =
               read_text \<lparr>r_state = START_FIELD, r_fields = fs @ [text_of v], r_field = []\<rparr> acc
                 (join_fields (map csv_field vs) @ LF # rest)"
      using read_field_comma[of v START_FIELD fs acc] Cons.prems by simp
    also have "\<dots> = read_text parse_reset (acc @ [(fs @ [text_of v]) @ map text_of vs]) rest"
      using Cons.prems Cons by (intro Cons.IH) simp_all
    finally show ?thesis by simp
  qed
qed

lemma read_row:
  assumes "2 \<le> length vs" "\<forall>v\<in>set vs. readable v"
  shows "read_text parse_reset acc (join_fields (map csv_field vs) @ LF # rest) =
         read_text parse_reset (acc @ [map text_of vs]) rest"
proof -
  from assms(1) obtain v v' vs' where vs: "vs = v # v' # vs'"
    by (cases vs; cases "tl vs") auto
  have "join_fields (map csv_field vs) @ LF # rest =
        csv_field v @ COMMA # (join_fields (map csv_field (v' # vs')) @ LF # rest)"
    using vs by simp
  then have "read_text parse_reset acc (join_fields (map csv_field vs) @ LF # rest) =
        read_text \<lparr>r_state = START_FIELD, r_fields = [] @ [text_of v], r_field = []\<rparr> acc
          (join_fields (map csv_field (v' # vs')) @ LF # rest)"
    using read_field_comma[of v START_RECORD "[]" acc] assms(2) vs
    by (simp add: parse_reset_def)
  also have "\<dots> = read_text parse_reset (acc @ [([] @ [text_of v]) @ map text_of (v' # vs')]) rest"
    using assms(2) vs by (intro read_row_tail) simp_all
  finally show ?thesis using vs by simp
qed

lemma read_rows:
  "\<forall>vs\<in>set vss. 2 \<le> length vs \<and> (\<forall>v\<in>set vs. readable v) \<Longrightarrow>
   read_text parse_reset acc (concat (map row_line vss)) = Inr (acc @ map (map text_of) vss)"
proof (induction vss arbitrary: acc)
  case Nil
  show ?case by (simp add: parse_reset_def)
next
  case (Cons vs vss)
  have "read_text parse_reset acc (concat (map row_line (vs # vss))) =
        read_text parse_reset acc (join_fields (map csv_field vs) @ LF # concat (map row_line vss))"
    by (simp add: row_line_def)
  also have "\<dots> = read_text parse_reset (acc @ [map text_of vs]) (concat (map row_line vss))"
    using Cons.prems by (intro read_row) simp_all
  also have "\<dots> = Inr ((acc @ [map text_of vs]) @ map (map text_of) vss)"
    using Cons.prems by (intro Cons.IH) simp
  finally show ?case by simp
qed

lemma un_cons: "c \<noteq> CR \<Longrightarrow> universal_newlines (c # cs) = c # universal_newlines cs"
  by (cases cs) simp_all

lemma un_no_cr: "CR \<notin> set a \<Longrightarrow> universal_newlines (a @ b) = a @ universal_newlines b"
proof (induction a)
  case Nil
  show ?case by simp
next
  case (Cons c a)
  then have c: "c \<noteq> CR" and a: "CR \<notin> set a" by auto
  have "universal_newlines ((c # a) @ b) = c # universal_newlines (a @ b)"
    using un_cons[OF c, of "a @ b"] by simp
  with Cons.IH[OF a] show ?case by simp
qed

lemma un_crlf: "universal_newlines (CR # LF # b) = LF # universal_newlines b"
  by simp

lemma csv_field_no_cr: "readable v \<Longrightarrow> CR \<notin> set (csv_field v)"
  by (cases v) (auto simp: readable_def csv_field_def quoted_def chars_neq split: if_splits)

lemma join_fields_no_cr: "\<forall>x\<in>set xs. CR \<notin> set x \<Longrightarrow> CR \<notin> set (join_fields xs)"
  by (induction xs rule: join_fields.induct) (auto simp: chars_neq)

lemma join_fields_nonempty: "2 \<le> length xs \<Longrightarrow> join_fields xs \<noteq> []"
  by (cases xs; cases "tl xs") auto

lemma csv_row_line:
  "2 \<le> length vs \<Longrightarrow> csv_row vs = join_fields (map csv_field vs) @ [CR, LF]"
  using join_fields_nonempty[of "map csv_field vs"] by (simp add: csv_row_def Let_def)

lemma un_rows:
  "\<forall>vs\<in>set vss. 2 \<le> length vs \<and> (\<forall>v\<in>set vs. readable v) \<Longrightarrow>
   universal_newlines (concat (map csv_row vss)) = concat (map row_line vss)"
proof (induction vss)
  case Nil
  show ?case by simp
next
  case (Cons vs vss)
  have nocr: "CR \<notin> set (join_fields (map csv_field vs))"
    using Cons.prems by (intro join_fields_no_cr) (auto simp: csv_field_no_cr)
  have "universal_newlines (concat (map csv_row (vs # vss))) =
        universal_newlines (join_fields (map csv_field vs) @ (CR # LF # concat (map csv_row vss)))"
    using Cons.prems by (simp add: csv_row_line)
  also have "\<dots> = join_fields (map csv_field vs) @ universal_newlines (CR # LF # concat (map csv_row vss))"
    using nocr by (rule un_no_cr)
  also have "\<dots> = join_fields (map csv_field vs) @ LF # concat (map row_line vss)"
    using Cons by (simp del: universal_newlines.simps add: un_crlf)
  finally have "universal_newlines (concat (map csv_row (vs # vss))) =
                  join_fields (map csv_field vs) @ LF # concat (map row_line vss)" .
  moreover have "row_line vs = join_fields (map csv_field vs) @ [LF]" by (rule row_line_def)
  ultimately show ?case by simp
qed

lemma rows_end_lf: "concat (map row_line vss) = [] \<or> last (concat (map row_line vss)) = LF"
  by (induction vss rule: rev_induct) (simp_all add: row_line_def)

lemma read_written:
  assumes "\<forall>vs\<in>set vss. 2 \<le> length vs \<and> (\<forall>v\<in>set vs. readable v)"
  shows "read_records parse_reset [] (lines_keepends (universal_newlines (concat (map csv_row vss))))
           = Inr (map (map text_of) vss)"
  using read_rows[OF assms, of "[]"] read_records_text[OF rows_end_lf, of parse_reset "[]" vss]
  by (simp add: un_rows[OF assms])


lemma clean_row_values: "clean_row d = map (written_value d) headers"
  by (simp add: clean_row_def written_value_def)

lemma length_clean_row: "length (clean_row d) = 6"
  by (simp add: clean_row_def headers_def)

lemma headers_readable: "\<forall>v\<in>set (map PyStr headers). readable v"
  by (simp add: headers_def readable_def CR_def field_limit_def)

lemma dict_row_headers:
  assumes "length vs = 6"
  shows "dom (dict_row headers (map text_of vs)) = Some ` set headers"
    and "\<forall>k<6. dict_row headers (map text_of vs) (Some (headers ! k)) = Some (RStr (text_of (vs ! k)))"
proof -
  from assms obtain a b c d e f where vs: "vs = [a, b, c, d, e, f]"
    by (cases vs; cases "tl vs"; cases "tl (tl vs)"; cases "tl (tl (tl vs))";
        cases "tl (tl (tl (tl vs)))"; cases "tl (tl (tl (tl (tl vs))))") auto
  show "dom (dict_row headers (map text_of vs)) = Some ` set headers"
    unfolding vs by (auto simp: dict_row_def headers_def Let_def)
  show "\<forall>k<6. dict_row headers (map text_of vs) (Some (headers ! k)) = Some (RStr (text_of (vs ! k)))"
  proof (intro allI impI)
    fix k :: nat assume "k < 6"
    then consider "k = 0" | "k = 1" | "k = 2" | "k = 3" | "k = 4" | "k = 5" by linarith
    then show "dict_row headers (map text_of vs) (Some (headers ! k)) = Some (RStr (text_of (vs ! k)))"
      unfolding vs by cases (simp_all add: dict_row_def headers_def Let_def)
  qed
qed

lemma dict_row_clean:
  assumes "h \<in> set headers"
  shows "dict_row headers (map text_of (clean_row d)) (Some h) = Some (RStr (text_of (written_value d h)))"
proof -
  from assms obtain k where k: "k < length headers" "headers ! k = h"
    by (auto simp: in_set_conv_nth)
  then have k6: "k < 6" by (simp add: headers_def)
  from dict_row_headers(2)[OF length_clean_row, of d] k6
  have "dict_row headers (map text_of (clean_row d)) (Some (headers ! k))
          = Some (RStr (text_of (clean_row d ! k)))" by blast
  moreover have "clean_row d ! k = written_value d h"
    using k by (simp add: clean_row_values)
  ultimately show ?thesis using k by simp
qed

lemma write_csv_file:
  assumes "(files w p = None \<and> old = []) \<or> files w p = Some (sink_file old)"
  shows "files (write_csv rows p w) p =
           Some (concat (map csv_row (map PyStr headers # old
                   @ map (\<lambda>r. clean_row (heap (write_csv rows p w) r)) rows)))"
proof -
  have rt: "rows_text (stamp_rows rows w) rows =
          concat (map csv_row (map (\<lambda>r. clean_row (heap (stamp_rows rows w) r)) rows))"
    by (simp add: rows_text_def comp_def)
  from assms show ?thesis
  proof
    assume a: "files w p = None \<and> old = []"
    then show ?thesis
      by (simp add: write_csv_def Let_def stamp_rows_files rt header_line_def)
  next
    assume a: "files w p = Some (sink_file old)"
    then show ?thesis
      by (simp add: write_csv_def Let_def stamp_rows_files rt header_line_def sink_file_def)
  qed
qed

text \<open>
  Claim C9, as the code has it. \<open>read_csv\<close> of a path without a file is the empty list.
  Let the path have no file, or the file \<open>write_csv\<close> left there (the header and rows
  \<open>old\<close> of six values), and let every value written be \<open>None\<close> or a string without a
  carriage return of at most 131072 characters (\<open>readable\<close>). Then \<open>read_csv\<close> after
  \<open>write_csv\<close> returns one dictionary for each old row and each new row, in this order;
  the dictionary of a new row has the six header names as its keys, each with the text
  that was written for it: the string of the row as it is after the call, and the
  empty string for \<open>None\<close> or a missing key.
\<close>

theorem read_after_write:
  "(files w q = None \<longrightarrow> read_csv q w = Inr []) \<and>
   (((files w p = None \<and> old = []) \<or> files w p = Some (sink_file old)) \<and>
   (\<forall>vs\<in>set old. length vs = 6 \<and> (\<forall>v\<in>set vs. readable v)) \<and>
   (\<forall>r\<in>set rows. \<forall>v\<in>set (clean_row (heap (write_csv rows p w) r)). readable v) \<longrightarrow>
     (\<exists>ds. read_csv p (write_csv rows p w) = Inr ds \<and>
        length ds = length old + length rows \<and>
        (\<forall>i<length rows.
           dom (ds ! (length old + i)) = Some ` set headers \<and>
           (\<forall>h\<in>set headers.
              (ds ! (length old + i)) (Some h) =
                Some (RStr (text_of (written_value (heap (write_csv rows p w) (rows ! i)) h)))))))"
proof (rule conjI)
  show "files w q = None \<longrightarrow> read_csv q w = Inr []"
    by (simp add: read_csv_def)
next
  show "((files w p = None \<and> old = []) \<or> files w p = Some (sink_file old)) \<and>
   (\<forall>vs\<in>set old. length vs = 6 \<and> (\<forall>v\<in>set vs. readable v)) \<and>
   (\<forall>r\<in>set rows. \<forall>v\<in>set (clean_row (heap (write_csv rows p w) r)). readable v) \<longrightarrow>
     (\<exists>ds. read_csv p (write_csv rows p w) = Inr ds \<and>
        length ds = length old + length rows \<and>
        (\<forall>i<length rows.
           dom (ds ! (length old + i)) = Some ` set headers \<and>
           (\<forall>h\<in>set headers.
              (ds ! (length old + i)) (Some h) =
                Some (RStr (text_of (written_value (heap (write_csv rows p w) (rows ! i)) h))))))"
  proof
  let ?w' = "write_csv rows p w"
  let ?new = "map (\<lambda>r. clean_row (heap ?w' r)) rows"
  let ?vss = "map PyStr headers # old @ ?new"
  assume a: "((files w p = None \<and> old = []) \<or> files w p = Some (sink_file old)) \<and>
   (\<forall>vs\<in>set old. length vs = 6 \<and> (\<forall>v\<in>set vs. readable v)) \<and>
   (\<forall>r\<in>set rows. \<forall>v\<in>set (clean_row (heap ?w' r)). readable v)"
  then have fl: "files ?w' p = Some (concat (map csv_row ?vss))"
    using write_csv_file by blast
  have ok: "\<forall>vs\<in>set ?vss. 2 \<le> length vs \<and> (\<forall>v\<in>set vs. readable v)"
  proof
    fix vs assume "vs \<in> set ?vss"
    then consider "vs = map PyStr headers" | "vs \<in> set old" | "vs \<in> set ?new" by auto
    then show "2 \<le> length vs \<and> (\<forall>v\<in>set vs. readable v)"
    proof cases
      case 1
      then show ?thesis using headers_readable by (simp add: headers_def)
    next
      case 2
      then show ?thesis using a by auto
    next
      case 3
      then obtain r where "r \<in> set rows" "vs = clean_row (heap ?w' r)" by auto
      then show ?thesis using a length_clean_row by auto
    qed
  qed
  have hd: "map text_of (map PyStr headers) = headers"
    by (simp add: text_of_def comp_def)
  let ?rs = "map (map text_of) (old @ ?new)"
  have recs: "read_records parse_reset [] (lines_keepends (universal_newlines (concat (map csv_row ?vss))))
          = Inr (headers # ?rs)"
    using read_written[OF ok] hd by simp
  have ne: "filter (\<lambda>row. row \<noteq> []) ?rs = ?rs"
  proof -
    have "\<forall>row\<in>set ?rs. row \<noteq> []"
    proof
      fix row assume "row \<in> set ?rs"
      then obtain vs where vs: "vs \<in> set (old @ ?new)" "row = map text_of vs" by auto
      then have "vs \<in> set ?vss" by simp
      with ok have "2 \<le> length vs" by blast
      with vs(2) show "row \<noteq> []" by auto
    qed
    then show ?thesis by (simp only: filter_True)
  qed
  let ?ds = "map (dict_row headers) ?rs"
  have rd: "read_csv p ?w' = Inr ?ds"
    unfolding read_csv_def fl using recs ne by (simp add: dict_reader_def)
  have len: "length ?ds = length old + length rows" by simp
  have each: "dom (?ds ! (length old + i)) = Some ` set headers \<and>
           (\<forall>h\<in>set headers. (?ds ! (length old + i)) (Some h) =
                Some (RStr (text_of (written_value (heap ?w' (rows ! i)) h))))"
    if i: "i < length rows" for i
  proof -
    have nth: "?ds ! (length old + i) = dict_row headers (map text_of (clean_row (heap ?w' (rows ! i))))"
      using i by (simp add: nth_append)
    show ?thesis unfolding nth
      using dict_row_headers(1)[OF length_clean_row] dict_row_clean by blast
  qed
  show "\<exists>ds. read_csv p ?w' = Inr ds \<and>
        length ds = length old + length rows \<and>
        (\<forall>i<length rows.
           dom (ds ! (length old + i)) = Some ` set headers \<and>
           (\<forall>h\<in>set headers.
              (ds ! (length old + i)) (Some h) =
                Some (RStr (text_of (written_value (heap ?w' (rows ! i)) h)))))"
    using rd len each by (intro exI[of _ ?ds]) blast
qed
qed

text \<open>The two test rows, written to a new path and read back.\<close>

theorem read_after_write_witness:
  "read_csv ''none.csv'' test_world = Inr []
   \<and> files test_world ''out.csv'' = None
   \<and> list_all (\<lambda>r. list_all readable (clean_row (heap (write_csv [0, 1] ''out.csv'' test_world) r))) [0, 1]
   \<and> (\<exists>ds. read_csv ''out.csv'' (write_csv [0, 1] ''out.csv'' test_world) = Inr ds
          \<and> length ds = 2
          \<and> (ds ! 0) (Some ''date'') = Some (RStr ''2024-01-15'')
          \<and> (ds ! 0) (Some ''processed_at'') = Some (RStr ''2024-01-20T09:00:00.000001'')
          \<and> (ds ! 1) (Some ''total'') = Some (RStr ''89.75'')
          \<and> (ds ! 1) (Some ''processed_at'') = Some (RStr ''2024-01-20T09:00:00.000002''))"
proof -
  let ?p = "''out.csv''"
  let ?w' = "write_csv [0, 1] ?p test_world"
  have new: "files test_world ?p = None" by (simp add: test_world_def)
  have rd: "list_all (\<lambda>r. list_all readable (clean_row (heap ?w' r))) [0, 1]" by code_simp
  then have rd': "\<forall>r\<in>set [0, 1]. \<forall>v\<in>set (clean_row (heap ?w' r)). readable v"
    by (simp add: list_all_iff)
  have old: "\<forall>vs\<in>set ([] :: pyval list list). length vs = 6 \<and> (\<forall>v\<in>set vs. readable v)" by simp
  have v0: "written_value (heap ?w' 0) ''date'' = PyStr ''2024-01-15''" by code_simp
  have v1: "written_value (heap ?w' 0) ''processed_at'' = PyStr ''2024-01-20T09:00:00.000001''" by code_simp
  have v2: "written_value (heap ?w' 1) ''total'' = PyStr ''89.75''" by code_simp
  have v3: "written_value (heap ?w' 1) ''processed_at'' = PyStr ''2024-01-20T09:00:00.000002''" by code_simp
  have hs: "''date'' \<in> set headers" "''processed_at'' \<in> set headers" "''total'' \<in> set headers"
    by (simp_all add: headers_def)
  have none: "read_csv ''none.csv'' test_world = Inr []"
    using read_after_write[of test_world "''none.csv''", THEN conjunct1] by (simp add: test_world_def)
  from read_after_write[of test_world _ ?p "[]" "[0, 1]", THEN conjunct2, THEN mp] new old rd'
  obtain ds where ds: "read_csv ?p ?w' = Inr ds" "length ds = length ([] :: pyval list list) + length [0::nat, 1]"
    and each: "\<forall>i<length [0::nat, 1].
           dom (ds ! (length ([] :: pyval list list) + i)) = Some ` set headers \<and>
           (\<forall>h\<in>set headers.
              (ds ! (length ([] :: pyval list list) + i)) (Some h) =
                Some (RStr (text_of (written_value (heap ?w' ([0, 1] ! i)) h))))"
    by blast
  from each[rule_format, of 0] hs have
    a: "(ds ! 0) (Some ''date'') = Some (RStr (text_of (written_value (heap ?w' 0) ''date'')))"
       "(ds ! 0) (Some ''processed_at'') = Some (RStr (text_of (written_value (heap ?w' 0) ''processed_at'')))"
    by simp_all
  from each[rule_format, of 1] hs have
    b: "(ds ! 1) (Some ''total'') = Some (RStr (text_of (written_value (heap ?w' 1) ''total'')))"
       "(ds ! 1) (Some ''processed_at'') = Some (RStr (text_of (written_value (heap ?w' 1) ''processed_at'')))"
    by simp_all
  have "\<exists>ds. read_csv ?p ?w' = Inr ds
          \<and> length ds = 2
          \<and> (ds ! 0) (Some ''date'') = Some (RStr ''2024-01-15'')
          \<and> (ds ! 0) (Some ''processed_at'') = Some (RStr ''2024-01-20T09:00:00.000001'')
          \<and> (ds ! 1) (Some ''total'') = Some (RStr ''89.75'')
          \<and> (ds ! 1) (Some ''processed_at'') = Some (RStr ''2024-01-20T09:00:00.000002'')"
    using ds a b unfolding v0 v1 v2 v3 by (intro exI[of _ ds]) (simp add: text_of_def)
  with none new rd show ?thesis by (intro conjI)
qed

text \<open>
  Claim C9 as stated holds for every path. At a path that holds an empty file the
  header is not written (the file exists), the reader takes the only row for the field
  names, and \<open>read_csv\<close> returns no row, although the row written has a date.
\<close>

theorem read_after_write_counterexample:
  "heap (write_csv [0] ''out.csv'' (test_world\<lparr>files := [''out.csv'' \<mapsto> '''']\<rparr>)) 0 ''date''
     = Some (PyStr ''2024-01-15'')
   \<and> files (write_csv [0] ''out.csv'' (test_world\<lparr>files := [''out.csv'' \<mapsto> '''']\<rparr>)) ''out.csv''
     = Some (''2024-01-15,10:30 AM,11:15 AM,125.50,test_receipt.jpg,2024-01-20T09:00:00.000001'' @ [CR, LF])
   \<and> map_sum id length
        (read_csv ''out.csv'' (write_csv [0] ''out.csv'' (test_world\<lparr>files := [''out.csv'' \<mapsto> '''']\<rparr>)))
     = Inr 0"
  by code_simp

text \<open>
  A carriage return inside a value does not come back either: \<open>write_csv\<close> opens the
  file with \<open>newline=''\<close>, \<open>read_csv\<close> does not, so the text mode of \<open>read_csv\<close> turns
  it into a line feed.
\<close>

lemma read_csv_carriage_return:
  "map_sum id (map (\<lambda>d. d (Some ''date'')))
     (read_csv ''out.csv''
        (write_csv [0] ''out.csv''
           (test_world\<lparr>heap := (heap test_world)
              (0 := (heap test_world 0)(''date'' \<mapsto> PyStr (''a'' @ [CR] @ ''b'')))\<rparr>)))
   = Inr [Some (RStr (''a'' @ [LF] @ ''b''))]"
  by code_simp

subsection \<open>Concurrent calls\<close>

text \<open>A call that runs alone through its eight steps does what \<open>write_csv\<close> does.\<close>

lemma single_call:
  "map_option s_world
     (run_schedule [0, 0, 0, 0, 0, 0, 0, 0]
        \<lparr>s_world = w, s_locks = Map.empty, s_calls = [new_call rows p]\<rparr>)
   = Some (write_csv rows p w)"
  by (cases "files w p")
     (simp_all add: call_step_def new_call_def write_csv_def Let_def stamp_rows_files rows_text_def)

text \<open>
  Claim C2 says that concurrent calls of one row each for a new path leave one header
  and one line for each row. The existence test of \<open>write_csv\<close> comes before \<open>open\<close> and
  before the lock is taken. In the schedule below both calls make the test while the
  path has no file; call 0 then runs to its end, and call 1 after it. Each call holds
  the lock while it writes, and each writes the header: the file has two headers and
  four lines, where the claim has three.
\<close>

theorem concurrent_calls_two_headers:
  "files test_world ''out.csv'' = None
   \<and> map_option (\<lambda>s. (map c_place (s_calls s), files (s_world s) ''out.csv''))
        (run_schedule [0, 1, 0, 0, 0, 0, 0, 0, 0, 1, 1, 1, 1, 1, 1, 1] two_calls)
     = Some ([Returned, Returned],
         Some (''date,start_time,end_time,total,source_file,processed_at'' @ [CR, LF]
           @ ''2024-01-15,10:30 AM,11:15 AM,125.50,test_receipt.jpg,2024-01-20T09:00:00.000001'' @ [CR, LF]
           @ ''date,start_time,end_time,total,source_file,processed_at'' @ [CR, LF]
           @ ''2024-01-16,14:00,15:30,89.75,receipt2.jpg,2024-01-20T09:00:00.000002'' @ [CR, LF]))
   \<and> physical_lines (''date,start_time,end_time,total,source_file,processed_at'' @ [CR, LF]
           @ ''2024-01-15,10:30 AM,11:15 AM,125.50,test_receipt.jpg,2024-01-20T09:00:00.000001'' @ [CR, LF]
           @ ''date,start_time,end_time,total,source_file,processed_at'' @ [CR, LF]
           @ ''2024-01-16,14:00,15:30,89.75,receipt2.jpg,2024-01-20T09:00:00.000002'' @ [CR, LF]) = 4"
  by code_simp

text \<open>
  When call 1 makes its test after call 0 has returned, there is one header. While
  call 0 holds the lock, call 1 cannot pass \<open>flock\<close>.
\<close>

lemma serial_calls_one_header:
  "map_option (\<lambda>s. (map c_place (s_calls s), files (s_world s) ''out.csv''))
        (run_schedule [0, 0, 0, 0, 0, 0, 0, 0, 1, 1, 1, 1, 1, 1, 1, 1] two_calls)
     = Some ([Returned, Returned],
         Some (''date,start_time,end_time,total,source_file,processed_at'' @ [CR, LF]
           @ ''2024-01-15,10:30 AM,11:15 AM,125.50,test_receipt.jpg,2024-01-20T09:00:00.000001'' @ [CR, LF]
           @ ''2024-01-16,14:00,15:30,89.75,receipt2.jpg,2024-01-20T09:00:00.000002'' @ [CR, LF]))"
  by code_simp

lemma second_call_waits_for_lock:
  "run_schedule [0, 0, 0, 0, 1, 1, 1] two_calls \<noteq> None
   \<and> run_schedule [0, 0, 0, 0, 1, 1, 1, 1] two_calls = None"
  by code_simp

end
